theory Spec2Isabelle
  imports Main "HOL-Library.Char_ord" "HOL-Library.List_Lexorder"
begin

section \<open>Data model of \<^verbatim>\<open>bigquery_etl/udf/parse_udf.py\<close>\<close>

text \<open>
  Python strings are modelled as \<^typ>\<open>string\<close>; every character of the texts handled here
  is one \<^typ>\<open>char\<close> (the SQL sources are ASCII). Exceptions are values of \<open>error\<close>:
  \<open>ValueError\<close> carries the message of the \<^verbatim>\<open>raise ValueError(...)\<close> statements (and of
  \<^verbatim>\<open>list.remove\<close>), \<open>RecursionError\<close> is what the interpreter raises when the call stack
  is exhausted, \<open>KeyError\<close> what a dictionary raises for a missing key, \<open>IndexError\<close>
  what a list raises for an index out of range.
\<close>

datatype error = ValueError string | RecursionError | KeyError string | IndexError

text \<open>The dataclass \<^verbatim>\<open>RawUdf\<close> (lines 48-59).\<close>

record RawUdf =
  name :: string
  dataset :: string
  filepath :: "string option"
  definitions :: "string list"
  tests :: "string list"
  dependencies :: "string list"
  description :: string
  is_stored_procedure :: bool

text \<open>An entry of the module-level list \<^verbatim>\<open>MOZFUN_ROUTINES\<close> (lines 36-45).\<close>

record routine =
  routine_name :: string
  is_udf :: bool

section \<open>Strings\<close>

text \<open>
  The string operations of Python that the module uses. A \<^typ>\<open>char\<close> stands for a code
  point below 256. \<open>contains s p\<close> is \<^verbatim>\<open>p in s\<close>, \<open>join sep xs\<close> is \<^verbatim>\<open>sep.join(xs)\<close>,
  \<open>split_ws\<close> is \<^verbatim>\<open>str.split()\<close> without arguments, \<open>isspace\<close> is the whitespace of
  \<^verbatim>\<open>str.isspace\<close>, \<^verbatim>\<open>str.split\<close>, \<^verbatim>\<open>str.strip\<close> and of \<^verbatim>\<open>\s\<close> in a pattern.
\<close>

definition newline :: char where
  "newline = CHR 0x0A"

definition startswith :: "string \<Rightarrow> string \<Rightarrow> bool" where
  "startswith s p = (take (length p) s = p)"

definition endswith :: "string \<Rightarrow> string \<Rightarrow> bool" where
  "endswith s p = (length p \<le> length s \<and> drop (length s - length p) s = p)"

fun contains :: "string \<Rightarrow> string \<Rightarrow> bool" where
  "contains [] p = (p = [])"
| "contains (c # cs) p = (startswith (c # cs) p \<or> contains cs p)"

fun join :: "string \<Rightarrow> string list \<Rightarrow> string" where
  "join sep [] = []"
| "join sep [x] = x"
| "join sep (x # y # ys) = x @ sep @ join sep (y # ys)"

definition isspace :: "char \<Rightarrow> bool" where
  "isspace c = (let n = of_char c :: nat in
     (9 \<le> n \<and> n \<le> 13) \<or> (28 \<le> n \<and> n \<le> 32) \<or> n = 133 \<or> n = 160)"

definition isupper :: "char \<Rightarrow> bool" where
  "isupper c = (let n = of_char c :: nat in
     (65 \<le> n \<and> n \<le> 90) \<or> (192 \<le> n \<and> n \<le> 222 \<and> n \<noteq> 215))"

text \<open>An upper-case letter and its lower-case form differ in bit 5 (value 32) only.\<close>

fun lower_char :: "char \<Rightarrow> char" where
  "lower_char (Char b0 b1 b2 b3 b4 b5 b6 b7) =
     (if isupper (Char b0 b1 b2 b3 b4 b5 b6 b7) then Char b0 b1 b2 b3 b4 True b6 b7
      else Char b0 b1 b2 b3 b4 b5 b6 b7)"

definition lower :: "string \<Rightarrow> string" where
  "lower s = map lower_char s"

fun words_from :: "string \<Rightarrow> string \<Rightarrow> string list" where
  "words_from cur [] = (if cur = [] then [] else [cur])"
| "words_from cur (c # cs) =
     (if isspace c then (if cur = [] then words_from [] cs else cur # words_from [] cs)
      else words_from (cur @ [c]) cs)"

definition split_ws :: "string \<Rightarrow> string list" where
  "split_ws s = words_from [] s"

definition strip :: "string \<Rightarrow> string" where
  "strip s = rev (dropWhile isspace (rev (dropWhile isspace s)))"

section \<open>The patterns\<close>

text \<open>
  \<^verbatim>\<open>UDF_CHAR = "[a-zA-z0-9_]"\<close> (line 22). The second range of the class is written
  \<^verbatim>\<open>A-z\<close>, so the class holds every code point from 65 to 122: the letters and the six
  characters between \<^verbatim>\<open>Z\<close> and \<^verbatim>\<open>a\<close>.
\<close>

definition UDF_CHAR :: "char \<Rightarrow> bool" where
  "UDF_CHAR c = (let n = of_char c :: nat in
     (97 \<le> n \<and> n \<le> 122) \<or> (65 \<le> n \<and> n \<le> 122) \<or> (48 \<le> n \<and> n \<le> 57) \<or> n = 95)"

text \<open>
  A pattern is modelled by its matcher at the start of a text: \<open>None\<close> when the pattern
  does not match there, otherwise what the match yields and the text after the match.
  \<open>udf_or_assert\<close> is the group \<^verbatim>\<open>(?:udf|assert)\<close>.
\<close>

definition udf_or_assert :: "string \<Rightarrow> (string \<times> string) option" where
  "udf_or_assert s =
     (if startswith s ''udf'' then Some (''udf'', drop 3 s)
      else if startswith s ''assert'' then Some (''assert'', drop 6 s)
      else None)"

text \<open>
  \<^verbatim>\<open>TEMP_UDF_RE = (?:udf|assert)_[a-zA-z0-9_]+\<close> (line 26): the result is the matched text.
  The repetition is greedy and nothing follows it, so it takes the longest run.
\<close>

definition TEMP_UDF_RE :: "string \<Rightarrow> (string \<times> string) option" where
  "TEMP_UDF_RE s =
     (case udf_or_assert s of
        None \<Rightarrow> None
      | Some (p, r) \<Rightarrow>
          (case r of
             [] \<Rightarrow> None
           | c # r' \<Rightarrow>
               if c = CHR ''_'' \<and> takeWhile UDF_CHAR r' \<noteq> []
               then Some (p @ ''_'' @ takeWhile UDF_CHAR r', dropWhile UDF_CHAR r')
               else None))"

text \<open>
  \<^verbatim>\<open>PERSISTENT_UDF_RE = ((?:udf|assert)[a-zA-z0-9_]*)\.([a-zA-z0-9_]+)\<close> (line 27): the
  result is the pair of groups. The dot is not in the class, so the first repetition can
  only be followed by the dot after its longest run: backtracking finds no other match.
\<close>

definition PERSISTENT_UDF_RE :: "string \<Rightarrow> ((string \<times> string) \<times> string) option" where
  "PERSISTENT_UDF_RE s =
     (case udf_or_assert s of
        None \<Rightarrow> None
      | Some (p, r) \<Rightarrow>
          (case dropWhile UDF_CHAR r of
             [] \<Rightarrow> None
           | c # r' \<Rightarrow>
               if c = CHR ''.'' \<and> takeWhile UDF_CHAR r' \<noteq> []
               then Some ((p @ takeWhile UDF_CHAR r, takeWhile UDF_CHAR r'), dropWhile UDF_CHAR r')
               else None))"

text \<open>
  \<^verbatim>\<open>pattern.findall(text)\<close> and \<^verbatim>\<open>pattern.sub(repl, text)\<close>: the text is scanned from the
  left; where the pattern matches, the match is taken and the scan goes on after it, and
  where it does not, the scan moves one character on. For \<open>re_sub\<close> the matcher yields the
  replacement text. None of the patterns of the module matches the empty string; after
  an empty match the scan would move one character on as well.
\<close>

fun re_findall :: "(string \<Rightarrow> ('m \<times> string) option) \<Rightarrow> string \<Rightarrow> 'm list" where
  "re_findall pat [] = []"
| "re_findall pat (c # cs) =
     (case pat (c # cs) of
        None \<Rightarrow> re_findall pat cs
      | Some (m, rest) \<Rightarrow> m # re_findall pat (if length rest \<le> length cs then rest else cs))"

fun re_sub :: "(string \<Rightarrow> (string \<times> string) option) \<Rightarrow> string \<Rightarrow> string" where
  "re_sub pat [] = []"
| "re_sub pat (c # cs) =
     (case pat (c # cs) of
        None \<Rightarrow> c # re_sub pat cs
      | Some (repl, rest) \<Rightarrow>
          if length rest \<le> length cs then repl @ re_sub pat rest else repl @ c # re_sub pat cs)"

text \<open>
  \<^verbatim>\<open>PERSISTENT_UDF_PREFIX = CREATE\s+(OR\s+REPLACE\s+)?FUNCTION(\s+IF\s+NOT\s+EXISTS)?\<close>
  with \<^verbatim>\<open>re.IGNORECASE\<close> (lines 29-31). \<open>lit_ci\<close> matches a literal regardless of case,
  \<open>spaces\<close> is \<^verbatim>\<open>\s+\<close>. Every \<^verbatim>\<open>\s+\<close> is followed by a letter, so only its longest run can
  be continued; an optional group that matches is kept, since what follows it cannot
  match where the group starts.
\<close>

definition lit_ci :: "string \<Rightarrow> string \<Rightarrow> string option" where
  "lit_ci p s = (if lower (take (length p) s) = lower p then Some (drop (length p) s) else None)"

definition spaces :: "string \<Rightarrow> string option" where
  "spaces s = (if takeWhile isspace s = [] then None else Some (dropWhile isspace s))"

definition or_replace :: "string \<Rightarrow> string option" where
  "or_replace s = Option.bind (Option.bind (Option.bind (lit_ci ''OR'' s) spaces) (lit_ci ''REPLACE'')) spaces"

definition if_not_exists :: "string \<Rightarrow> string option" where
  "if_not_exists s =
     Option.bind (Option.bind (Option.bind (Option.bind (Option.bind (spaces s)
       (lit_ci ''IF'')) spaces) (lit_ci ''NOT'')) spaces) (lit_ci ''EXISTS'')"

definition PERSISTENT_UDF_PREFIX :: "string \<Rightarrow> string option" where
  "PERSISTENT_UDF_PREFIX s =
     (case Option.bind (lit_ci ''CREATE'' s) spaces of
        None \<Rightarrow> None
      | Some r \<Rightarrow>
          (case lit_ci ''FUNCTION'' (case or_replace r of None \<Rightarrow> r | Some r' \<Rightarrow> r') of
             None \<Rightarrow> None
           | Some r'' \<Rightarrow> Some (case if_not_exists r'' of None \<Rightarrow> r'' | Some r3 \<Rightarrow> r3)))"

text \<open>
  \<^verbatim>\<open>UDF_NAME_RE = ^([a-zA-Z0-9_]+\.)?[a-zA-Z][a-zA-Z0-9_]{0,255}$\<close> (line 32), used with
  \<^verbatim>\<open>match\<close>. \<open>identifier_end\<close> is \<^verbatim>\<open>[a-zA-Z][a-zA-Z0-9_]{0,255}$\<close>: a letter, the longest run
  of at most 255 word characters, and then the end of the text, which \<^verbatim>\<open>$\<close> also finds
  before a final newline. The optional group is tried first and given up when the rest
  does not match after it.
\<close>

definition alpha :: "char \<Rightarrow> bool" where
  "alpha c = (let n = of_char c :: nat in (97 \<le> n \<and> n \<le> 122) \<or> (65 \<le> n \<and> n \<le> 90))"

definition word_char :: "char \<Rightarrow> bool" where
  "word_char c = (let n = of_char c :: nat in
     (97 \<le> n \<and> n \<le> 122) \<or> (65 \<le> n \<and> n \<le> 90) \<or> (48 \<le> n \<and> n \<le> 57) \<or> n = 95)"

definition identifier_end :: "string \<Rightarrow> bool" where
  "identifier_end s =
     (case s of
        [] \<Rightarrow> False
      | c # r \<Rightarrow> alpha c \<and>
          (let rest = drop (min 255 (length (takeWhile word_char r))) r
           in rest = [] \<or> rest = [newline]))"

definition UDF_NAME_RE :: "string \<Rightarrow> bool" where
  "UDF_NAME_RE s =
     ((case dropWhile word_char s of
         [] \<Rightarrow> False
       | c # r \<Rightarrow> c = CHR ''.'' \<and> takeWhile word_char s \<noteq> [] \<and> identifier_end r)
      \<or> identifier_end s)"

text \<open>\<^verbatim>\<open>GENERIC_DATASET\<close> (line 33) and the file names of lines 23-24.\<close>

definition GENERIC_DATASET :: string where
  "GENERIC_DATASET = ''_generic_dataset_''"

definition UDF_FILE :: string where
  "UDF_FILE = ''udf.sql''"

definition PROCEDURE_FILE :: string where
  "PROCEDURE_FILE = ''stored_procedure.sql''"

section \<open>Dependency resolution\<close>

text \<open>
  The \<^verbatim>\<open>for dep in raw_udf.dependencies: deps = f(deps, dep)\<close> loop of
  \<^verbatim>\<open>accumulate_dependencies\<close>; an exception raised by a call leaves the loop.
\<close>

fun for_deps :: "(string list \<Rightarrow> string \<Rightarrow> error + string list) \<Rightarrow> string list
    \<Rightarrow> string list \<Rightarrow> error + string list" where
  "for_deps f [] deps = Inr deps"
| "for_deps f (dep # rest) deps =
     (case f deps dep of Inl e \<Rightarrow> Inl e | Inr deps' \<Rightarrow> for_deps f rest deps')"

text \<open>
  \<^verbatim>\<open>accumulate_dependencies(deps, raw_udfs, udf_name)\<close> (lines 231-247). The first argument
  is the number of stack frames still available: every call uses one, and a call with none
  left is the interpreter's \<open>RecursionError\<close>. The source has no other exit from a cycle.
\<close>

fun accumulate_dependencies :: "nat \<Rightarrow> string list \<Rightarrow> (string \<rightharpoonup> RawUdf) \<Rightarrow> string
    \<Rightarrow> error + string list" where
  "accumulate_dependencies 0 deps raw_udfs udf_name = Inl RecursionError"
| "accumulate_dependencies (Suc frames) deps raw_udfs udf_name =
     (case raw_udfs udf_name of
        None \<Rightarrow> Inr deps
      | Some raw_udf \<Rightarrow>
          (case for_deps (\<lambda>ds dep. accumulate_dependencies frames ds raw_udfs dep)
                  (dependencies raw_udf) deps of
             Inl e \<Rightarrow> Inl e
           | Inr deps' \<Rightarrow>
               if udf_name \<in> set deps' then Inr deps' else Inr (deps' @ [udf_name])))"

text \<open>The default recursion limit of the interpreter.\<close>

definition recursion_limit :: nat where
  "recursion_limit = 1000"

text \<open>
  \<open>depends_on raw_udfs a b\<close>: \<open>a\<close> is a key of the catalog and \<open>b\<close> is one of its
  dependencies. \<open>dep_path raw_udfs a path b\<close>: the names \<open>a, path, b\<close> form a chain of such
  steps; a chain from a name back to itself is a dependency cycle through that name.
\<close>

definition depends_on :: "(string \<rightharpoonup> RawUdf) \<Rightarrow> string \<Rightarrow> string \<Rightarrow> bool" where
  "depends_on raw_udfs a b =
     (case raw_udfs a of None \<Rightarrow> False | Some raw_udf \<Rightarrow> b \<in> set (dependencies raw_udf))"

fun dep_path :: "(string \<rightharpoonup> RawUdf) \<Rightarrow> string \<Rightarrow> string list \<Rightarrow> string \<Rightarrow> bool" where
  "dep_path raw_udfs a [] b = depends_on raw_udfs a b"
| "dep_path raw_udfs a (x # xs) b = (depends_on raw_udfs a x \<and> dep_path raw_udfs x xs b)"

definition on_cycle :: "(string \<rightharpoonup> RawUdf) \<Rightarrow> string \<Rightarrow> string list \<Rightarrow> bool" where
  "on_cycle raw_udfs udf_name path = dep_path raw_udfs udf_name path udf_name"

text \<open>A record with the given name and dependencies and nothing else, for examples.\<close>

definition udf_with :: "string \<Rightarrow> string list \<Rightarrow> string list \<Rightarrow> RawUdf" where
  "udf_with n defs ds =
     \<lparr>name = n, dataset = ''udf'', filepath = None, definitions = defs, tests = [],
      dependencies = ds, description = [], is_stored_procedure = False\<rparr>"

text \<open>The cyclic catalog of the specification: A depends on B, B depends on A.\<close>

definition cyclic_catalog :: "string \<rightharpoonup> RawUdf" where
  "cyclic_catalog =
     [''udf_a'' \<mapsto> udf_with ''udf_a'' [] [''udf_b''],
      ''udf_b'' \<mapsto> udf_with ''udf_b'' [] [''udf_a'']]"

text \<open>An acyclic catalog: \<open>udf.a\<close> depends on \<open>udf.b\<close>, which depends on nothing.\<close>

definition example_catalog :: "string \<rightharpoonup> RawUdf" where
  "example_catalog =
     [''udf.b'' \<mapsto> udf_with ''udf.b'' [''CREATE OR REPLACE FUNCTION udf.b() AS (1);''] [],
      ''udf.a'' \<mapsto> udf_with ''udf.a'' [''CREATE OR REPLACE FUNCTION udf.a() AS (udf.b());'']
         [''udf.b'']]"

text \<open>
  \<open>grows raw_udfs deps res\<close>: \<open>res\<close> is \<open>deps\<close> followed by keys of the catalog, each of them
  new at the moment it was appended.
\<close>

definition grows :: "(string \<rightharpoonup> RawUdf) \<Rightarrow> string list \<Rightarrow> string list \<Rightarrow> bool" where
  "grows raw_udfs deps res =
     (\<exists>ext. res = deps @ ext \<and> set ext \<subseteq> dom raw_udfs \<and> distinct ext \<and> set ext \<inter> set deps = {})"

section \<open>The registry of library routines\<close>

text \<open>
  \<^verbatim>\<open>MOZFUN_ROUTINES\<close> (lines 36-45) is computed when the module is loaded, from the
  directories \<^verbatim>\<open>os.walk\<close> finds under \<^verbatim>\<open>mozfun\<close>. The model takes the result of the walk,
  the pairs of a directory path and the file names in it; \<open>split_on\<close> is \<^verbatim>\<open>str.split(sep)\<close>.
  A path with fewer than two components has no element \<^verbatim>\<open>[-2]\<close>.
\<close>

fun split_on :: "char \<Rightarrow> string \<Rightarrow> string list" where
  "split_on sep [] = [[]]"
| "split_on sep (c # cs) =
     (if c = sep then [] # split_on sep cs
      else (case split_on sep cs of [] \<Rightarrow> [[c]] | w # ws \<Rightarrow> (c # w) # ws))"

definition routine_of :: "string \<Rightarrow> string \<Rightarrow> error + routine" where
  "routine_of root filename =
     (let parts = split_on (CHR ''/'') root in
      if length parts < 2 then Inl IndexError
      else Inr \<lparr>routine_name = parts ! (length parts - 2) @ ''.'' @ last parts,
                is_udf = (filename = UDF_FILE)\<rparr>)"

fun collect :: "(error + 'a) list \<Rightarrow> error + 'a list" where
  "collect [] = Inr []"
| "collect (x # xs) =
     (case x of
        Inl e \<Rightarrow> Inl e
      | Inr v \<Rightarrow> (case collect xs of Inl e \<Rightarrow> Inl e | Inr vs \<Rightarrow> Inr (v # vs)))"

definition MOZFUN_ROUTINES :: "(string \<times> string list) list \<Rightarrow> error + routine list" where
  "MOZFUN_ROUTINES walk =
     collect (concat (map (\<lambda>(root, files).
        map (routine_of root) (filter (\<lambda>filename. filename \<in> {UDF_FILE, PROCEDURE_FILE}) files))
        walk))"

section \<open>Building a record from text\<close>

text \<open>
  The state of the loop over the statements in \<^verbatim>\<open>RawUdf.from_text\<close> (lines 97-103):
  the lists \<^verbatim>\<open>definitions\<close> and \<^verbatim>\<open>tests\<close>, \<^verbatim>\<open>internal_name\<close> (\<open>None\<close> at first),
  \<^verbatim>\<open>is_stored_procedure\<close> and \<^verbatim>\<open>procedure_start\<close> (\<open>-1\<close> at first).
\<close>

record scan =
  defs :: "string list"
  tsts :: "string list"
  internal_name :: "string option"
  is_procedure :: bool
  procedure_start :: int

definition scan_init :: scan where
  "scan_init = \<lparr>defs = [], tsts = [], internal_name = None, is_procedure = False,
                 procedure_start = -1\<rparr>"

definition normalize_statement :: "string \<Rightarrow> string" where
  "normalize_statement s = join '' '' (split_ws (lower s))"

text \<open>\<^verbatim>\<open>statements[procedure_start : i + 1]\<close> for a start that is not negative.\<close>

definition slice :: "string list \<Rightarrow> int \<Rightarrow> nat \<Rightarrow> string list" where
  "slice statements start stop = take (stop - nat start) (drop (nat start) statements)"

text \<open>The body of the loop (lines 106-133) for the statement \<open>s\<close> at index \<open>i\<close>.\<close>

definition loop_body :: "string \<Rightarrow> string \<Rightarrow> string list \<Rightarrow> nat \<Rightarrow> string \<Rightarrow> scan \<Rightarrow> scan" where
  "loop_body persistent_name temp_name statements i s st =
     (let normalized_statement = normalize_statement s in
      if startswith normalized_statement ''create or replace function'' then
        st\<lparr>defs := defs st @ [s],
           internal_name := (if contains normalized_statement persistent_name
                             then Some persistent_name else internal_name st)\<rparr>
      else if startswith normalized_statement ''create temp function'' then
        st\<lparr>defs := defs st @ [s],
           internal_name := (if contains normalized_statement temp_name
                             then Some temp_name else internal_name st)\<rparr>
      else if startswith normalized_statement ''create or replace procedure'' then
        st\<lparr>is_procedure := True, defs := defs st @ [s], tsts := tsts st @ [s],
           internal_name := (if contains normalized_statement persistent_name
                             then Some persistent_name else internal_name st)\<rparr>
      else
        (let start = (if startswith normalized_statement ''begin'' then int i
                      else procedure_start st);
             tests1 = (if start = -1 then tsts st @ [s] else tsts st)
         in if start > -1 \<and> endswith normalized_statement ''end;''
            then st\<lparr>tsts := tests1 @ [join '' '' (slice statements start (i + 1))],
                    procedure_start := -1\<rparr>
            else st\<lparr>tsts := tests1, procedure_start := start\<rparr>))"

fun for_statements :: "string \<Rightarrow> string \<Rightarrow> string list \<Rightarrow> nat \<Rightarrow> string list \<Rightarrow> scan \<Rightarrow> scan" where
  "for_statements persistent_name temp_name statements i [] st = st"
| "for_statements persistent_name temp_name statements i (s # rest) st =
     for_statements persistent_name temp_name statements (Suc i) rest
       (loop_body persistent_name temp_name statements i s st)"

text \<open>The two messages of \<^verbatim>\<open>from_text\<close> (lines 137-145) and the one of \<^verbatim>\<open>list.remove\<close>.\<close>

definition expected_message :: "string \<Rightarrow> string \<Rightarrow> string" where
  "expected_message persistent_name temp_name =
     ''Expected a function named '' @ persistent_name @ '' or '' @ temp_name @ '' to be defined''"

definition invalid_message :: "string \<Rightarrow> string" where
  "invalid_message n =
     ''Invalid UDF name '' @ n @ '': Must start with alpha char, limited to chars [a-zA-z0-9_], be at most 256 chars long''"

definition remove_message :: string where
  "remove_message = ''list.remove(x): x not in list''"

text \<open>
  The loop \<^verbatim>\<open>for name in (prod_name, internal_name)\<close> (lines 135-145): it yields the
  internal name when neither test raises. \<open>prod_name\<close> is a string, so the test for
  \<open>None\<close> can only fire for \<open>internal_name\<close>; it is not guarded by \<open>is_defined\<close>.
\<close>

definition check_names :: "string \<Rightarrow> string \<Rightarrow> string \<Rightarrow> string option \<Rightarrow> bool \<Rightarrow> error + string" where
  "check_names persistent_name temp_name prod_name internal is_defined =
     (if is_defined \<and> \<not> UDF_NAME_RE prod_name then Inl (ValueError (invalid_message prod_name))
      else (case internal of
              None \<Rightarrow> Inl (ValueError (expected_message persistent_name temp_name))
            | Some n \<Rightarrow>
                if is_defined \<and> \<not> UDF_NAME_RE n then Inl (ValueError (invalid_message n))
                else Inr n))"

text \<open>The names found in the definitions (lines 148-157), before the self reference is removed.\<close>

definition dot_join :: "string \<times> string \<Rightarrow> string" where
  "dot_join t = fst t @ ''.'' @ snd t"

definition found_dependencies :: "routine list \<Rightarrow> string list \<Rightarrow> string list" where
  "found_dependencies registry definitions_list =
     (let joined = join [newline] definitions_list in
      map dot_join (re_findall PERSISTENT_UDF_RE joined)
      @ re_findall TEMP_UDF_RE joined
      @ map routine_name (filter (\<lambda>udf. contains joined (routine_name udf)) registry))"

text \<open>
  \<^verbatim>\<open>RawUdf.from_text(text, dataset, name, filepath, description, is_defined)\<close> (lines
  84-173). \<^verbatim>\<open>sqlparse\<close> is a library outside the repository: its \<^verbatim>\<open>format\<close> with
  \<^verbatim>\<open>strip_comments=True\<close> and its \<^verbatim>\<open>split\<close> are the parameters \<open>sql_format\<close> and
  \<open>sql_split\<close>; \<open>registry\<close> is the value of \<^verbatim>\<open>MOZFUN_ROUTINES\<close>. \<^verbatim>\<open>sorted(set(xs))\<close> is
  \<open>sort (remdups xs)\<close>.
\<close>

definition from_text :: "(string \<Rightarrow> string) \<Rightarrow> (string \<Rightarrow> string list) \<Rightarrow> routine list
    \<Rightarrow> string \<Rightarrow> string \<Rightarrow> string \<Rightarrow> string option \<Rightarrow> string \<Rightarrow> bool \<Rightarrow> error + RawUdf" where
  "from_text sql_format sql_split registry text dataset_name udf_name path descr is_defined =
     (let sql = sql_format text;
          statements = filter (\<lambda>s. strip s \<noteq> []) (sql_split sql);
          prod_name = udf_name;
          persistent_name = dataset_name @ ''.'' @ udf_name;
          temp_name = dataset_name @ ''_'' @ udf_name;
          st = for_statements persistent_name temp_name statements 0 statements scan_init
      in case check_names persistent_name temp_name prod_name (internal_name st) is_defined of
           Inl e \<Rightarrow> Inl e
         | Inr internal \<Rightarrow>
             (let found = found_dependencies registry (defs st) in
              if is_defined \<and> internal \<notin> set found then Inl (ValueError remove_message)
              else Inr \<lparr>name = internal, dataset = dataset_name, filepath = path,
                        definitions = defs st, tests = tsts st,
                        dependencies = sort (remdups (if is_defined then remove1 internal found
                                                       else found)),
                        description = descr, is_stored_procedure = is_procedure st\<rparr>))"

text \<open>
  Stand-ins for \<^verbatim>\<open>sqlparse\<close> on texts that have no comments, string literals or blocks, for
  running examples: the formatter leaves such a text as it is, and the splitter ends a
  statement after each semicolon and strips the white space around it.
\<close>

fun cut_statements :: "string \<Rightarrow> string \<Rightarrow> string list" where
  "cut_statements cur [] = (if cur = [] then [] else [cur])"
| "cut_statements cur (c # cs) =
     (if c = CHR '';'' then (cur @ [c]) # cut_statements [] cs else cut_statements (cur @ [c]) cs)"

definition plain_split :: "string \<Rightarrow> string list" where
  "plain_split sql = map strip (cut_statements [] sql)"

definition plain_format :: "string \<Rightarrow> string" where
  "plain_format text = text"

section \<open>Usages and rewriting\<close>

text \<open>\<^verbatim>\<open>udf_usages_in_text(text)\<close> (lines 257-270).\<close>

definition udf_usages_in_text :: "(string \<Rightarrow> string) \<Rightarrow> routine list \<Rightarrow> string \<Rightarrow> string list" where
  "udf_usages_in_text sql_format registry text =
     (let sql = sql_format text;
          udf_usages = map dot_join (re_findall PERSISTENT_UDF_RE sql);
          tmp_udfs = filter (\<lambda>u. u \<noteq> ''udf_js'') (re_findall TEMP_UDF_RE sql)
      in sort (remdups (udf_usages @ tmp_udfs
           @ map routine_name (filter (\<lambda>r. contains sql (routine_name r)) registry))))"

text \<open>
  \<^verbatim>\<open>udf_usage_definitions(text, raw_udfs)\<close> (lines 273-285) for a catalog that is given. The
  first argument is the number of stack frames that each call of
  \<open>accumulate_dependencies\<close> finds available.
\<close>

fun definitions_of :: "(string \<rightharpoonup> RawUdf) \<Rightarrow> string \<Rightarrow> string list \<Rightarrow> error + string list" where
  "definitions_of raw_udfs text [] = Inr []"
| "definitions_of raw_udfs text (udf_name # rest) =
     (case raw_udfs udf_name of
        None \<Rightarrow> Inl (KeyError udf_name)
      | Some raw_udf \<Rightarrow>
          (case definitions_of raw_udfs text rest of
             Inl e \<Rightarrow> Inl e
           | Inr others \<Rightarrow>
               Inr (filter (\<lambda>statement. \<not> contains text statement) (definitions raw_udf) @ others)))"

definition udf_usage_definitions :: "nat \<Rightarrow> (string \<Rightarrow> string) \<Rightarrow> routine list \<Rightarrow> string
    \<Rightarrow> (string \<rightharpoonup> RawUdf) \<Rightarrow> error + string list" where
  "udf_usage_definitions frames sql_format registry text raw_udfs =
     (case for_deps (\<lambda>ds udf_usage. accumulate_dependencies frames ds raw_udfs udf_usage)
             (udf_usages_in_text sql_format registry text) [] of
        Inl e \<Rightarrow> Inl e
      | Inr deps \<Rightarrow> definitions_of raw_udfs text deps)"

text \<open>\<^verbatim>\<open>prepend_udf_usage_definitions(text, raw_udfs)\<close> (lines 324-327).\<close>

definition prepend_udf_usage_definitions :: "nat \<Rightarrow> (string \<Rightarrow> string) \<Rightarrow> routine list \<Rightarrow> string
    \<Rightarrow> (string \<rightharpoonup> RawUdf) \<Rightarrow> error + string" where
  "prepend_udf_usage_definitions frames sql_format registry text raw_udfs =
     (case udf_usage_definitions frames sql_format registry text raw_udfs of
        Inl e \<Rightarrow> Inl e
      | Inr statements \<Rightarrow> Inr (join [newline, newline] (statements @ [text])))"

text \<open>\<^verbatim>\<open>sub_persistent_udf_names_as_temp(text)\<close> (lines 330-332); the template is \<^verbatim>\<open>\1_\2\<close>.\<close>

definition sub_persistent_udf_names_as_temp :: "string \<Rightarrow> string" where
  "sub_persistent_udf_names_as_temp text =
     re_sub (\<lambda>s. map_option (\<lambda>(groups, rest). (fst groups @ ''_'' @ snd groups, rest))
                    (PERSISTENT_UDF_RE s)) text"

text \<open>
  The pattern \<^verbatim>\<open>"(?:mozfun.)?" + routine["name"]\<close> of \<^verbatim>\<open>sub_local_routines\<close> (line 302).
  The name is read as a pattern: the model covers names whose characters are letters,
  digits, underscores and dots, where a dot matches every character but a newline and
  every other character matches itself.
\<close>

fun match_chars :: "string \<Rightarrow> string \<Rightarrow> string option" where
  "match_chars [] s = Some s"
| "match_chars (p # ps) [] = None"
| "match_chars (p # ps) (c # cs) =
     (if (if p = CHR ''.'' then c \<noteq> newline else c = p) then match_chars ps cs else None)"

definition routine_regex :: "string \<Rightarrow> string \<Rightarrow> string option" where
  "routine_regex routine s =
     (case Option.bind (match_chars ''mozfun.'' s) (match_chars routine) of
        Some rest \<Rightarrow> Some rest
      | None \<Rightarrow> match_chars routine s)"

definition replace_dots :: "string \<Rightarrow> string" where
  "replace_dots s = map (\<lambda>c. if c = CHR ''.'' then CHR ''_'' else c) s"

text \<open>The body of the loop over the registry (lines 298-303).\<close>

definition sub_routine :: "string \<Rightarrow> routine \<Rightarrow> string" where
  "sub_routine sql r =
     (if contains sql (routine_name r) then
        (let replace_name = (if is_udf r then replace_dots (routine_name r)
                             else GENERIC_DATASET @ ''.'' @ replace_dots (routine_name r))
         in re_sub (\<lambda>s. map_option (\<lambda>rest. (replace_name, rest))
                           (routine_regex (routine_name r) s)) sql)
      else sql)"

text \<open>\<^verbatim>\<open>sub_local_routines(test, raw_udfs)\<close> (lines 288-306).\<close>

definition sub_local_routines :: "nat \<Rightarrow> (string \<Rightarrow> string) \<Rightarrow> routine list \<Rightarrow> string
    \<Rightarrow> (string \<rightharpoonup> RawUdf) \<Rightarrow> error + string" where
  "sub_local_routines frames sql_format registry test raw_udfs =
     (case prepend_udf_usage_definitions frames sql_format registry test raw_udfs of
        Inl e \<Rightarrow> Inl e
      | Inr sql \<Rightarrow>
          Inr (re_sub (\<lambda>s. map_option (\<lambda>rest. (''CREATE TEMP FUNCTION'', rest))
                              (PERSISTENT_UDF_PREFIX s))
                 (foldl sub_routine (sub_persistent_udf_names_as_temp sql) registry)))"

text \<open>\<^verbatim>\<open>udf_tests_sql(raw_udf, raw_udfs)\<close> (lines 309-321).\<close>

definition udf_tests_sql :: "nat \<Rightarrow> (string \<Rightarrow> string) \<Rightarrow> routine list \<Rightarrow> RawUdf
    \<Rightarrow> (string \<rightharpoonup> RawUdf) \<Rightarrow> error + string list" where
  "udf_tests_sql frames sql_format registry raw_udf raw_udfs =
     collect (map (\<lambda>test. sub_local_routines frames sql_format registry test raw_udfs)
                (tests raw_udf))"

section \<open>Notions used in the statements\<close>

text \<open>
  For the statement about \<open>sub_persistent_udf_names_as_temp\<close>: \<open>unmatched pre rest\<close> says that
  in the text \<open>pre @ rest\<close> the persistent pattern matches at no position of \<open>pre\<close>;
  \<open>udf_dataset d\<close> says that \<open>d\<close> starts with \<open>udf\<close> or \<open>assert\<close> and consists of characters of
  the class.
\<close>

fun unmatched :: "string \<Rightarrow> string \<Rightarrow> bool" where
  "unmatched [] rest = True"
| "unmatched (c # cs) rest = (PERSISTENT_UDF_RE (c # cs @ rest) = None \<and> unmatched cs rest)"

definition udf_dataset :: "string \<Rightarrow> bool" where
  "udf_dataset d = ((startswith d ''udf'' \<or> startswith d ''assert'') \<and> list_all UDF_CHAR d)"

text \<open>
  \<open>is_definition s\<close>: the statement is taken by one of the three \<^verbatim>\<open>create\<close> branches of the
  loop. \<open>same_result st st'\<close>: two loop states agree on everything that \<open>from_text\<close> reads
  after the loop.
\<close>

definition is_definition :: "string \<Rightarrow> bool" where
  "is_definition s =
     (startswith (normalize_statement s) ''create or replace function''
      \<or> startswith (normalize_statement s) ''create temp function''
      \<or> startswith (normalize_statement s) ''create or replace procedure'')"

definition same_result :: "scan \<Rightarrow> scan \<Rightarrow> bool" where
  "same_result st st' =
     (defs st = defs st' \<and> tsts st = tsts st' \<and> internal_name st = internal_name st'
      \<and> is_procedure st = is_procedure st')"

text \<open>
  The rule that \<open>UDF_NAME_RE\<close> implements, stated on the name: \<open>udf_identifier\<close> is a letter
  followed by letters, digits and underscores, at most 256 characters in all;
  \<open>name_rule\<close> allows in front of it a non-empty run of letters, digits and underscores
  and a dot. The bound is on the identifier, not on the prefix.
\<close>

definition udf_identifier :: "string \<Rightarrow> bool" where
  "udf_identifier i = (i \<noteq> [] \<and> alpha (hd i) \<and> list_all word_char (tl i) \<and> length i \<le> 256)"

definition name_rule :: "string \<Rightarrow> bool" where
  "name_rule s =
     (udf_identifier s
      \<or> (takeWhile (\<lambda>c. c \<noteq> CHR ''.'') s \<noteq> []
         \<and> list_all word_char (takeWhile (\<lambda>c. c \<noteq> CHR ''.'') s)
         \<and> dropWhile (\<lambda>c. c \<noteq> CHR ''.'') s \<noteq> []
         \<and> udf_identifier (tl (dropWhile (\<lambda>c. c \<noteq> CHR ''.'') s))))"

text \<open>The state in which the loop of \<open>from_text\<close> ends, and the name it has resolved.\<close>

definition scan_text :: "(string \<Rightarrow> string) \<Rightarrow> (string \<Rightarrow> string list) \<Rightarrow> string \<Rightarrow> string
    \<Rightarrow> string \<Rightarrow> scan" where
  "scan_text sql_format sql_split text dataset_name udf_name =
     for_statements (dataset_name @ ''.'' @ udf_name) (dataset_name @ ''_'' @ udf_name)
       (filter (\<lambda>s. strip s \<noteq> []) (sql_split (sql_format text))) 0
       (filter (\<lambda>s. strip s \<noteq> []) (sql_split (sql_format text))) scan_init"

text \<open>
  For the order of the prepended definitions: \<open>dep_rel raw_udfs\<close> relates a dependency to
  the catalog entry that names it; \<open>deps_first raw_udfs l\<close> says that in the list \<open>l\<close>
  every name comes after those of its dependencies that are keys of the catalog.
\<close>

definition dep_rel :: "(string \<rightharpoonup> RawUdf) \<Rightarrow> (string \<times> string) set" where
  "dep_rel raw_udfs = {(b, a). depends_on raw_udfs a b}"

definition deps_first :: "(string \<rightharpoonup> RawUdf) \<Rightarrow> string list \<Rightarrow> bool" where
  "deps_first raw_udfs l =
     (\<forall>pre x post b. l = pre @ x # post \<and> depends_on raw_udfs x b \<and> b \<in> dom raw_udfs
        \<longrightarrow> b \<in> set pre)"



definition routine_pat :: "routine \<Rightarrow> string \<Rightarrow> (string \<times> string) option" where
  "routine_pat r s =
     map_option (\<lambda>rest. (if is_udf r then replace_dots (routine_name r)
                          else GENERIC_DATASET @ ''.'' @ replace_dots (routine_name r), rest))
       (routine_regex (routine_name r) s)"


definition apply_routine :: "string \<Rightarrow> routine \<Rightarrow> string" where
  "apply_routine sql r = re_sub (routine_pat r) sql"





definition unterminated_catalog :: "string \<rightharpoonup> RawUdf" where
  "unterminated_catalog =
     [''udf.b'' \<mapsto> udf_with ''udf.b'' [''CREATE OR REPLACE FUNCTION udf.b() AS (1);''] [],
      ''udf.a'' \<mapsto> udf_with ''udf.a''
         [''CREATE OR REPLACE FUNCTION udf.a() AS (udf.b());'', ''CREATE OR REPLACE FUNCTION'']
         [''udf.b'']]"

section \<open>Properties of the resolver\<close>

lemma accumulate_dependencies_error:
  "accumulate_dependencies frames deps raw_udfs udf_name = Inl e \<Longrightarrow> e = RecursionError"
proof (induction frames arbitrary: deps udf_name e)
  case 0
  then show ?case by simp
next
  case (Suc frames)
  have loop: "for_deps (\<lambda>ds dep. accumulate_dependencies frames ds raw_udfs dep) xs ds = Inl e'
      \<Longrightarrow> e' = RecursionError" for xs ds e'
  proof (induction xs arbitrary: ds)
    case Nil
    then show ?case by simp
  next
    case (Cons x xs)
    then show ?case using Suc.IH by (auto split: sum.splits)
  qed
  from Suc.prems show ?case
    by (auto split: option.splits sum.splits if_splits dest: loop)
qed

lemma for_deps_error:
  assumes "x \<in> set xs" and "\<And>ds. \<exists>e. f ds x = Inl e"
  shows "\<exists>e. for_deps f xs deps = Inl e"
  using assms(1)
proof (induction xs arbitrary: deps)
  case Nil
  then show ?case by simp
next
  case (Cons y ys)
  show ?case
  proof (cases "f deps y")
    case (Inl e)
    then show ?thesis by simp
  next
    case (Inr deps')
    show ?thesis
    proof (cases "x = y")
      case True
      with assms(2)[of deps] Inr show ?thesis by simp
    next
      case False
      with Cons.prems have "x \<in> set ys" by simp
      from Cons.IH[OF this, of deps'] Inr show ?thesis by simp
    qed
  qed
qed

lemma dep_path_snoc:
  "dep_path raw_udfs a path b \<Longrightarrow> depends_on raw_udfs b c \<Longrightarrow> dep_path raw_udfs a (path @ [b]) c"
  by (induction path arbitrary: a) auto

lemma on_cycle_step:
  assumes "on_cycle raw_udfs a path"
  shows "\<exists>b path'. depends_on raw_udfs a b \<and> on_cycle raw_udfs b path'"
proof (cases path)
  case Nil
  with assms have "depends_on raw_udfs a a" and "dep_path raw_udfs a [] a"
    unfolding on_cycle_def by auto
  then show ?thesis unfolding on_cycle_def by blast
next
  case (Cons x xs)
  with assms have "depends_on raw_udfs a x" and "dep_path raw_udfs x xs a"
    unfolding on_cycle_def by auto
  then have "dep_path raw_udfs x (xs @ [a]) x" by (rule dep_path_snoc[rotated])
  with \<open>depends_on raw_udfs a x\<close> show ?thesis unfolding on_cycle_def by blast
qed

lemma cycle_exhausts_stack:
  "on_cycle raw_udfs udf_name path \<Longrightarrow>
   accumulate_dependencies frames deps raw_udfs udf_name = Inl RecursionError"
proof (induction frames arbitrary: udf_name path deps)
  case 0
  then show ?case by simp
next
  case (Suc frames)
  from on_cycle_step[OF Suc.prems] obtain b path' where
    b: "depends_on raw_udfs udf_name b" and cyc: "on_cycle raw_udfs b path'" by blast
  from b obtain raw_udf where r: "raw_udfs udf_name = Some raw_udf"
    and mem: "b \<in> set (dependencies raw_udf)"
    unfolding depends_on_def by (auto split: option.splits)
  have "\<exists>e. for_deps (\<lambda>ds dep. accumulate_dependencies frames ds raw_udfs dep)
      (dependencies raw_udf) deps = Inl e"
    by (rule for_deps_error[OF mem]) (simp add: Suc.IH[OF cyc])
  then obtain e where e: "for_deps (\<lambda>ds dep. accumulate_dependencies frames ds raw_udfs dep)
      (dependencies raw_udf) deps = Inl e" by blast
  then have "accumulate_dependencies (Suc frames) deps raw_udfs udf_name = Inl e"
    using r by simp
  then show ?case using accumulate_dependencies_error by blast
qed

text \<open>
  C1 (as amended). The source has no "currently visiting" guard and no cyclic-dependency
  error: started on a name that lies on a dependency cycle, \<open>accumulate_dependencies\<close> keeps
  recursing, so that whatever number of stack frames is available the call ends in the
  interpreter's \<open>RecursionError\<close>; it never returns a list and never raises a dedicated error.
\<close>

theorem accumulate_dependencies_cycle:
  "on_cycle raw_udfs udf_name path \<Longrightarrow>
   accumulate_dependencies frames deps raw_udfs udf_name = Inl RecursionError"
  by (rule cycle_exhausts_stack)

theorem accumulate_dependencies_cycle_witness:
  "on_cycle cyclic_catalog ''udf_a'' [''udf_b''] \<and>
   accumulate_dependencies 5 [] cyclic_catalog ''udf_a'' = Inl RecursionError"
proof -
  have h: "on_cycle cyclic_catalog ''udf_a'' [''udf_b'']"
    by (simp add: on_cycle_def depends_on_def cyclic_catalog_def udf_with_def)
  from accumulate_dependencies_cycle[OF h] h show ?thesis by simp
qed

text \<open>
  Counterexample to C1 as stated: on the catalog where A depends on B and B on A, with the
  interpreter's whole default stack available, the outcome is stack exhaustion.
\<close>

theorem accumulate_dependencies_cycle_counterexample:
  "accumulate_dependencies recursion_limit [] cyclic_catalog ''udf_a'' = Inl RecursionError"
proof -
  have "on_cycle cyclic_catalog ''udf_a'' [''udf_b'']"
    by (simp add: on_cycle_def depends_on_def cyclic_catalog_def udf_with_def)
  then show ?thesis by (rule cycle_exhausts_stack)
qed

lemma grows_refl: "grows raw_udfs deps deps"
  by (simp add: grows_def)

lemma grows_trans:
  assumes "grows raw_udfs a b" and "grows raw_udfs b c"
  shows "grows raw_udfs a c"
proof -
  from assms(1) obtain e1 where e1: "b = a @ e1" "set e1 \<subseteq> dom raw_udfs" "distinct e1"
    "set e1 \<inter> set a = {}" unfolding grows_def by blast
  from assms(2) obtain e2 where e2: "c = b @ e2" "set e2 \<subseteq> dom raw_udfs" "distinct e2"
    "set e2 \<inter> set b = {}" unfolding grows_def by blast
  have "c = a @ (e1 @ e2)" using e1(1) e2(1) by simp
  moreover have "set (e1 @ e2) \<subseteq> dom raw_udfs" using e1(2) e2(2) by simp
  moreover have "distinct (e1 @ e2)" using e1(1,3) e2(3,4) by auto
  moreover have "set (e1 @ e2) \<inter> set a = {}" using e1(1,4) e2(4) by auto
  ultimately show ?thesis unfolding grows_def by blast
qed

lemma grows_snoc:
  "raw_udfs n = Some r \<Longrightarrow> n \<notin> set deps \<Longrightarrow> grows raw_udfs deps (deps @ [n])"
  unfolding grows_def by auto

lemma for_deps_grows:
  assumes "\<And>ds x r. f ds x = Inr r \<Longrightarrow> grows raw_udfs ds r"
  shows "for_deps f xs deps = Inr res \<Longrightarrow> grows raw_udfs deps res"
proof (induction xs arbitrary: deps)
  case Nil
  then show ?case by (simp add: grows_refl)
next
  case (Cons x xs)
  from Cons.prems obtain mid where m: "f deps x = Inr mid" and r: "for_deps f xs mid = Inr res"
    by (auto split: sum.splits)
  from assms[OF m] Cons.IH[OF r] show ?case by (rule grows_trans)
qed

lemma accumulate_dependencies_grows:
  "accumulate_dependencies frames deps raw_udfs udf_name = Inr res \<Longrightarrow> grows raw_udfs deps res"
proof (induction frames arbitrary: deps udf_name res)
  case 0
  then show ?case by simp
next
  case (Suc frames)
  show ?case
  proof (cases "raw_udfs udf_name")
    case None
    with Suc.prems show ?thesis by (simp add: grows_refl)
  next
    case (Some raw_udf)
    with Suc.prems obtain mid where
      loop: "for_deps (\<lambda>ds dep. accumulate_dependencies frames ds raw_udfs dep)
               (dependencies raw_udf) deps = Inr mid"
      and res: "res = (if udf_name \<in> set mid then mid else mid @ [udf_name])"
      by (auto split: sum.splits if_splits)
    have g: "grows raw_udfs deps mid"
      by (rule for_deps_grows[OF _ loop]) (rule Suc.IH)
    show ?thesis
    proof (cases "udf_name \<in> set mid")
      case True
      with res g show ?thesis by simp
    next
      case False
      with res have "res = mid @ [udf_name]" by simp
      moreover have "grows raw_udfs mid (mid @ [udf_name])"
        using Some False by (rule grows_snoc)
      ultimately show ?thesis using g by (auto intro: grows_trans)
    qed
  qed
qed

text \<open>
  C10. Whenever \<open>accumulate_dependencies\<close> returns, the returned list is the input \<open>deps\<close>
  followed by an extension; every element of the extension is a key of the catalog, and
  each was absent from the list when it was appended (the extension is duplicate-free and
  disjoint from \<open>deps\<close>). Hence a duplicate-free \<open>deps\<close> gives a duplicate-free result.
\<close>

theorem accumulate_dependencies_extends:
  assumes "accumulate_dependencies frames deps raw_udfs udf_name = Inr res"
  shows "\<exists>ext. res = deps @ ext \<and> set ext \<subseteq> dom raw_udfs \<and> distinct ext
           \<and> set ext \<inter> set deps = {} \<and> (distinct deps \<longrightarrow> distinct res)"
proof -
  from accumulate_dependencies_grows[OF assms] obtain ext where
    e: "res = deps @ ext" "set ext \<subseteq> dom raw_udfs" "distinct ext" "set ext \<inter> set deps = {}"
    unfolding grows_def by blast
  then have "distinct deps \<longrightarrow> distinct res" by auto
  with e show ?thesis by blast
qed

theorem accumulate_dependencies_extends_witness:
  "accumulate_dependencies 3 [''udf.c''] example_catalog ''udf.a''
     = Inr [''udf.c'', ''udf.b'', ''udf.a''] \<and>
   (\<exists>ext. [''udf.c'', ''udf.b'', ''udf.a''] = [''udf.c''] @ ext \<and> set ext \<subseteq> dom example_catalog
      \<and> distinct ext \<and> set ext \<inter> set [''udf.c''] = {}
      \<and> (distinct [''udf.c''] \<longrightarrow> distinct [''udf.c'', ''udf.b'', ''udf.a'']))"
proof -
  have h: "accumulate_dependencies 3 [''udf.c''] example_catalog ''udf.a''
     = Inr [''udf.c'', ''udf.b'', ''udf.a'']"
    by (simp add: numeral_3_eq_3 example_catalog_def udf_with_def)
  from accumulate_dependencies_extends[OF h] h show ?thesis by blast
qed

section \<open>Properties of \<open>from_text\<close>\<close>

text \<open>
  C2. The self reference is taken out with \<^verbatim>\<open>dependencies.remove(internal_name)\<close> before the
  list is deduplicated, and \<^verbatim>\<open>list.remove\<close> deletes the first occurrence only. A
  definition that names its own routine twice therefore keeps its own name among its
  dependencies: here \<open>udf.f\<close> is a dependency of \<open>udf.f\<close>.
\<close>

theorem from_text_keeps_self_reference:
  "from_text plain_format plain_split []
     ''CREATE OR REPLACE FUNCTION udf.f(x INT64) AS (IF(x < 1, 0, udf.f(x - 1))); SELECT udf.f(1);''
     ''udf'' ''f'' None [] True
   = Inr \<lparr>name = ''udf.f'', dataset = ''udf'', filepath = None,
           definitions = [''CREATE OR REPLACE FUNCTION udf.f(x INT64) AS (IF(x < 1, 0, udf.f(x - 1)));''],
           tests = [''SELECT udf.f(1);''], dependencies = [''udf.f''],
           description = [], is_stored_procedure = False\<rparr>"
  by code_simp

text \<open>
  The same happens without any repetition in the text when the routine is in the registry
  and its dataset starts with \<open>assert\<close>: the name is found once by the persistent pattern
  and once by the registry.
\<close>

lemma from_text_keeps_self_reference_registry:
  "from_text plain_format plain_split [\<lparr>routine_name = ''assert.equals'', is_udf = True\<rparr>]
     ''CREATE OR REPLACE FUNCTION assert.equals(x INT64, y INT64) AS (x = y);''
     ''assert'' ''equals'' None [] True
   = Inr \<lparr>name = ''assert.equals'', dataset = ''assert'', filepath = None,
           definitions = [''CREATE OR REPLACE FUNCTION assert.equals(x INT64, y INT64) AS (x = y);''],
           tests = [], dependencies = [''assert.equals''],
           description = [], is_stored_procedure = False\<rparr>"
  by code_simp

text \<open>
  C4. The docstring of \<^verbatim>\<open>from_text\<close> says that with \<^verbatim>\<open>is_defined=False\<close> the routine need
  not be defined in the text, which may hold tests only. The test \<^verbatim>\<open>if name is None\<close> is
  not guarded by \<^verbatim>\<open>is_defined\<close>, so such a text is refused all the same.
\<close>

theorem from_text_not_defined_raises:
  "from_text plain_format plain_split [] ''SELECT udf.f(1);'' ''udf'' ''f'' None [] False
   = Inl (ValueError ''Expected a function named udf.f or udf_f to be defined'')"
  by code_simp

text \<open>
  The first half of C4 holds: whatever the text, when the loop resolves no internal name
  and a definition is required, \<open>from_text\<close> raises a \<open>ValueError\<close>.
\<close>

lemma from_text_unresolved_raises:
  assumes "internal_name (for_statements (ds @ ''.'' @ n) (ds @ ''_'' @ n)
             (filter (\<lambda>s. strip s \<noteq> []) (sql_split (sql_format text))) 0
             (filter (\<lambda>s. strip s \<noteq> []) (sql_split (sql_format text))) scan_init) = None"
  shows "from_text sql_format sql_split registry text ds n path descr is_defined
           = Inl (ValueError (if is_defined \<and> \<not> UDF_NAME_RE n then invalid_message n
                              else expected_message (ds @ ''.'' @ n) (ds @ ''_'' @ n)))"
  using assms by (simp add: from_text_def check_names_def Let_def)

text \<open>
  C6. \<open>udf_usages_in_text\<close> drops the match \<open>udf_js\<close> of the temp pattern, with the comment
  that it is not a valid UDF; \<open>from_text\<close> collects the matches of the same pattern in
  the definitions without that filter. A definition that calls \<open>udf_js.g\<close> gets the
  dependency \<open>udf_js\<close>, while the usages of the same text do not have it.
\<close>

theorem from_text_reports_udf_js:
  "from_text plain_format plain_split []
     ''CREATE OR REPLACE FUNCTION udf.f(x INT64) AS (udf_js.g(x));'' ''udf'' ''f'' None [] True
   = Inr \<lparr>name = ''udf.f'', dataset = ''udf'', filepath = None,
           definitions = [''CREATE OR REPLACE FUNCTION udf.f(x INT64) AS (udf_js.g(x));''],
           tests = [], dependencies = [''udf_js'', ''udf_js.g''],
           description = [], is_stored_procedure = False\<rparr>
   \<and> udf_usages_in_text plain_format []
         ''CREATE OR REPLACE FUNCTION udf.f(x INT64) AS (udf_js.g(x));''
       = [''udf.f'', ''udf_js.g'']"
  by code_simp

section \<open>Properties of the rewriting\<close>

text \<open>
  C8. \<open>sub_local_routines\<close> rewrites persistent names before it looks for the routines of
  the registry. A registered procedure whose dataset starts with \<open>udf\<close> or \<open>assert\<close> has
  lost its dot by then, is no longer found in the text, and does not get the generic
  dataset in front: the docstring's "use generic dataset for stored procedures" fails for
  it, while a procedure of another dataset gets the prefix.
\<close>

theorem sub_local_routines_procedure_without_generic_dataset:
  "MOZFUN_ROUTINES [(''mozfun/assert/check'', [''stored_procedure.sql'']),
                    (''mozfun/hist/check'', [''stored_procedure.sql''])]
     = Inr [\<lparr>routine_name = ''assert.check'', is_udf = False\<rparr>,
            \<lparr>routine_name = ''hist.check'', is_udf = False\<rparr>]
   \<and> sub_local_routines recursion_limit plain_format
         [\<lparr>routine_name = ''assert.check'', is_udf = False\<rparr>,
          \<lparr>routine_name = ''hist.check'', is_udf = False\<rparr>]
         ''CALL assert.check(1); CALL hist.check(2);'' Map.empty
       = Inr ''CALL assert_check(1); CALL _generic_dataset_.hist_check(2);''"
  by code_simp

text \<open>
  Routines of a dataset that starts with neither \<open>udf\<close> nor \<open>assert\<close> are rewritten as the
  docstring says: the function without a prefix, the procedure with the generic dataset,
  and the namespace \<open>mozfun.\<close> in front of a name is dropped.
\<close>

lemma sub_local_routines_registry_example:
  "sub_local_routines recursion_limit plain_format
     [\<lparr>routine_name = ''hist.extract'', is_udf = True\<rparr>,
      \<lparr>routine_name = ''hist.check'', is_udf = False\<rparr>]
     ''SELECT mozfun.hist.extract(x); CALL hist.check(2);'' Map.empty
   = Inr ''SELECT hist_extract(x); CALL _generic_dataset_.hist_check(2);''"
  by code_simp

section \<open>Properties of the name rewriting\<close>

lemma startswith_iff: "startswith s p \<longleftrightarrow> (\<exists>r. s = p @ r)"
proof
  assume "startswith s p"
  then have "s = p @ drop (length p) s"
    unfolding startswith_def by (metis append_take_drop_id)
  then show "\<exists>r. s = p @ r" ..
next
  assume "\<exists>r. s = p @ r"
  then show "startswith s p" unfolding startswith_def by auto
qed

lemma re_sub_unmatched:
  "unmatched pre rest \<Longrightarrow>
   sub_persistent_udf_names_as_temp (pre @ rest) = pre @ sub_persistent_udf_names_as_temp rest"
  by (induction pre) (auto simp: sub_persistent_udf_names_as_temp_def)

lemma not_UDF_CHAR_dot: "\<not> UDF_CHAR (CHR ''.'')"
  by (simp add: UDF_CHAR_def)

lemma takeWhile_run:
  "list_all P xs \<Longrightarrow> ys = [] \<or> \<not> P (hd ys)
   \<Longrightarrow> takeWhile P (xs @ ys) = xs \<and> dropWhile P (xs @ ys) = ys"
  by (induction xs) (cases ys; auto)+

lemma udf_or_assert_dataset:
  assumes "udf_dataset d"
  shows "\<exists>p r. d = p @ r \<and> list_all UDF_CHAR r \<and> udf_or_assert (d @ t) = Some (p, r @ t)"
proof -
  from assms have all: "list_all UDF_CHAR d" by (simp add: udf_dataset_def)
  show ?thesis
  proof (cases "startswith d ''udf''")
    case True
    then obtain r where d: "d = ''udf'' @ r" unfolding startswith_iff by blast
    have "udf_or_assert (d @ t) = Some (''udf'', r @ t)"
      by (simp add: d udf_or_assert_def startswith_def numeral_3_eq_3)
    moreover have "list_all UDF_CHAR r" using all d by simp
    ultimately show ?thesis using d by blast
  next
    case False
    with assms have "startswith d ''assert''" by (simp add: udf_dataset_def)
    then obtain r where d: "d = ''assert'' @ r" unfolding startswith_iff by blast
    have "udf_or_assert (d @ t) = Some (''assert'', r @ t)"
      by (simp add: d udf_or_assert_def startswith_def eval_nat_numeral)
    moreover have "list_all UDF_CHAR r" using all d by simp
    ultimately show ?thesis using d by blast
  qed
qed

lemma PERSISTENT_UDF_RE_reference:
  assumes "udf_dataset d" and "i \<noteq> []" and "list_all UDF_CHAR i"
    and "post = [] \<or> \<not> UDF_CHAR (hd post)"
  shows "PERSISTENT_UDF_RE (d @ ''.'' @ i @ post) = Some ((d, i), post)"
proof -
  from udf_or_assert_dataset[OF assms(1), of "''.'' @ i @ post"] obtain p r where
    d: "d = p @ r" and r: "list_all UDF_CHAR r"
    and m: "udf_or_assert (d @ ''.'' @ i @ post) = Some (p, r @ ''.'' @ i @ post)" by blast
  have run1: "takeWhile UDF_CHAR (r @ ''.'' @ i @ post) = r
      \<and> dropWhile UDF_CHAR (r @ ''.'' @ i @ post) = ''.'' @ i @ post"
    by (rule takeWhile_run[OF r]) (simp add: not_UDF_CHAR_dot)
  have run2: "takeWhile UDF_CHAR (i @ post) = i \<and> dropWhile UDF_CHAR (i @ post) = post"
    by (rule takeWhile_run[OF assms(3,4)])
  show ?thesis
    unfolding PERSISTENT_UDF_RE_def m using run1 run2 assms(2) d by simp
qed

lemma sub_persistent_reference:
  assumes "udf_dataset d" and "i \<noteq> []" and "list_all UDF_CHAR i"
    and "post = [] \<or> \<not> UDF_CHAR (hd post)"
  shows "sub_persistent_udf_names_as_temp (d @ ''.'' @ i @ post)
         = d @ ''_'' @ i @ sub_persistent_udf_names_as_temp post"
proof -
  from assms(1) obtain c cs where d: "d = c # cs"
    by (cases d) (auto simp: udf_dataset_def startswith_def)
  have m: "PERSISTENT_UDF_RE (c # cs @ ''.'' @ i @ post) = Some ((d, i), post)"
    using PERSISTENT_UDF_RE_reference[OF assms] d by simp
  show ?thesis
    unfolding sub_persistent_udf_names_as_temp_def d using m d by simp
qed

lemma sub_persistent_unchanged:
  "\<not> contains s ''udf'' \<Longrightarrow> \<not> contains s ''assert''
   \<Longrightarrow> sub_persistent_udf_names_as_temp s = s"
proof (induction s)
  case Nil
  then show ?case by (simp add: sub_persistent_udf_names_as_temp_def)
next
  case (Cons c cs)
  then have "PERSISTENT_UDF_RE (c # cs) = None"
    by (simp add: PERSISTENT_UDF_RE_def udf_or_assert_def)
  with Cons show ?case by (simp add: sub_persistent_udf_names_as_temp_def)
qed

text \<open>
  C3 (as amended). The persistent pattern requires the dataset part to start with \<open>udf\<close>
  or \<open>assert\<close>. Where the text has, after a part in which the pattern matches nowhere, such
  a dataset name, a dot and a non-empty identifier (both of characters of the class, the
  identifier not continued by one), the dot becomes an underscore and the rest of the
  text is rewritten in the same way. A text that contains neither \<open>udf\<close> nor \<open>assert\<close>
  is returned as it is.
\<close>

theorem sub_persistent_udf_names_as_temp_rewrites:
  "(unmatched pre (d @ ''.'' @ i @ post) \<and> udf_dataset d \<and> i \<noteq> [] \<and> list_all UDF_CHAR i
      \<and> (post = [] \<or> \<not> UDF_CHAR (hd post))
    \<longrightarrow> sub_persistent_udf_names_as_temp (pre @ d @ ''.'' @ i @ post)
        = pre @ d @ ''_'' @ i @ sub_persistent_udf_names_as_temp post)
   \<and> (\<not> contains s ''udf'' \<and> \<not> contains s ''assert''
    \<longrightarrow> sub_persistent_udf_names_as_temp s = s)"
  using re_sub_unmatched sub_persistent_reference sub_persistent_unchanged by auto

theorem sub_persistent_udf_names_as_temp_rewrites_witness:
  "unmatched ''SELECT '' (''udf'' @ ''.'' @ ''f'' @ ''(1);'') \<and> udf_dataset ''udf'' \<and> ''f'' \<noteq> []
   \<and> list_all UDF_CHAR ''f'' \<and> \<not> UDF_CHAR (hd ''(1);'')
   \<and> \<not> contains ''SELECT ds.f(1);'' ''udf'' \<and> \<not> contains ''SELECT ds.f(1);'' ''assert''
   \<and> sub_persistent_udf_names_as_temp ''SELECT udf.f(1);'' = ''SELECT udf_f(1);''
   \<and> sub_persistent_udf_names_as_temp ''SELECT ds.f(1);'' = ''SELECT ds.f(1);''"
proof -
  have h1: "unmatched ''SELECT '' (''udf'' @ ''.'' @ ''f'' @ ''(1);'') \<and> udf_dataset ''udf''
      \<and> ''f'' \<noteq> [] \<and> list_all UDF_CHAR ''f'' \<and> (''(1);'' = [] \<or> \<not> UDF_CHAR (hd ''(1);''))"
    by code_simp
  have h2: "\<not> contains ''SELECT ds.f(1);'' ''udf'' \<and> \<not> contains ''SELECT ds.f(1);'' ''assert''"
    by code_simp
  have rest: "sub_persistent_udf_names_as_temp ''(1);'' = ''(1);''"
    by code_simp
  from sub_persistent_udf_names_as_temp_rewrites
         [of "''SELECT ''" "''udf''" "''f''" "''(1);''" "''SELECT ds.f(1);''"] h1 h2
  have "sub_persistent_udf_names_as_temp (''SELECT '' @ ''udf'' @ ''.'' @ ''f'' @ ''(1);'')
          = ''SELECT '' @ ''udf'' @ ''_'' @ ''f'' @ sub_persistent_udf_names_as_temp ''(1);''"
    and "sub_persistent_udf_names_as_temp ''SELECT ds.f(1);'' = ''SELECT ds.f(1);''"
    by blast+
  with h1 h2 rest show ?thesis by simp
qed

text \<open>
  Counterexample to C3 as stated: the dataset \<open>ds\<close> starts with neither \<open>udf\<close> nor
  \<open>assert\<close>, and the reference \<open>ds.f\<close> is left as it is.
\<close>

theorem sub_persistent_udf_names_as_temp_counterexample:
  "sub_persistent_udf_names_as_temp ''SELECT ds.f(1);'' = ''SELECT ds.f(1);''
   \<and> sub_persistent_udf_names_as_temp ''SELECT ds.f(1);'' \<noteq> ''SELECT ds_f(1);''"
  by code_simp

section \<open>Properties of the loop over the statements\<close>

lemma for_statements_append:
  "for_statements pn tn stmts i (xs @ ys) st
   = for_statements pn tn stmts (i + length xs) ys (for_statements pn tn stmts i xs st)"
  by (induction xs arbitrary: i st) auto

lemma slice_prefix: "slice (A @ R) start (length A) = drop (nat start) A"
  by (simp add: slice_def)

lemma loop_body_prefix:
  "loop_body pn tn (seen @ x # rest) (length seen) x st
   = loop_body pn tn (seen @ [x]) (length seen) x st"
proof -
  have "slice (seen @ x # rest) start (length seen + 1) = slice (seen @ [x]) start (length seen + 1)"
    for start
    using slice_prefix[of "seen @ [x]" rest start] slice_prefix[of "seen @ [x]" "[]" start]
    by simp
  then show ?thesis by (simp add: loop_body_def Let_def)
qed

lemma for_statements_prefix:
  "for_statements pn tn (seen @ xs @ r1) (length seen) xs st
   = for_statements pn tn (seen @ xs @ r2) (length seen) xs st"
proof (induction xs arbitrary: seen st)
  case Nil
  then show ?case by simp
next
  case (Cons x xs)
  have "loop_body pn tn (seen @ x # xs @ r1) (length seen) x st
      = loop_body pn tn (seen @ x # xs @ r2) (length seen) x st"
    using loop_body_prefix[of pn tn "seen" x "xs @ r1" st]
      loop_body_prefix[of pn tn "seen" x "xs @ r2" st] by simp
  moreover have "for_statements pn tn ((seen @ [x]) @ xs @ r1) (length (seen @ [x])) xs st'
      = for_statements pn tn ((seen @ [x]) @ xs @ r2) (length (seen @ [x])) xs st'" for st'
    by (rule Cons.IH)
  ultimately show ?case by simp
qed

lemma begin_not_definition: "startswith (normalize_statement s) ''begin'' \<Longrightarrow> \<not> is_definition s"
  by (cases "normalize_statement s") (auto simp: is_definition_def startswith_def)

lemma loop_body_definition:
  assumes "is_definition s" and "same_result st st'"
  shows "same_result (loop_body pn tn stmts i s st) (loop_body pn tn stmts' j s st')"
    and "procedure_start (loop_body pn tn stmts i s st) = procedure_start st"
  using assms by (auto simp: loop_body_def is_definition_def same_result_def Let_def)

lemma loop_body_in_span:
  assumes "\<not> is_definition s" and "\<not> endswith (normalize_statement s) ''end;''"
    and "0 \<le> procedure_start st \<or> startswith (normalize_statement s) ''begin''"
  shows "same_result (loop_body pn tn stmts i s st) st"
    and "0 \<le> procedure_start (loop_body pn tn stmts i s st)"
  using assms by (auto simp: loop_body_def is_definition_def same_result_def Let_def)

lemma same_result_trans: "same_result a b \<Longrightarrow> same_result b c \<Longrightarrow> same_result a c"
  by (simp add: same_result_def)

lemma same_result_sym: "same_result a b \<Longrightarrow> same_result b a"
  by (simp add: same_result_def)

lemma for_statements_open_span:
  assumes "\<forall>s\<in>set xs. is_definition s \<or> \<not> endswith (normalize_statement s) ''end;''"
    and "same_result st st'" and "0 \<le> procedure_start st"
  shows "same_result (for_statements pn tn stmts i xs st)
           (for_statements pn tn stmts' j (filter is_definition xs) st')"
  using assms
proof (induction xs arbitrary: i j st st')
  case Nil
  then show ?case by simp
next
  case (Cons x xs)
  from Cons.prems(1) have rest: "\<forall>s\<in>set xs. is_definition s \<or> \<not> endswith (normalize_statement s) ''end;''"
    by simp
  show ?case
  proof (cases "is_definition x")
    case True
    have "same_result (loop_body pn tn stmts i x st) (loop_body pn tn stmts' j x st')"
      and "0 \<le> procedure_start (loop_body pn tn stmts i x st)"
      using loop_body_definition[OF True Cons.prems(2)] Cons.prems(3) by simp_all
    from Cons.IH[OF rest this] True show ?thesis by simp
  next
    case False
    with Cons.prems(1) have ne: "\<not> endswith (normalize_statement x) ''end;''" by simp
    have "same_result (loop_body pn tn stmts i x st) st"
      and p: "0 \<le> procedure_start (loop_body pn tn stmts i x st)"
      using loop_body_in_span[OF False ne] Cons.prems(3) by simp_all
    then have "same_result (loop_body pn tn stmts i x st) st'"
      using Cons.prems(2) by (blast intro: same_result_trans)
    from Cons.IH[OF rest this p] False show ?thesis by simp
  qed
qed

lemma for_statements_unterminated:
  assumes "startswith (normalize_statement b) ''begin''" and "\<not> endswith (normalize_statement b) ''end;''"
    and "\<forall>s\<in>set post. is_definition s \<or> \<not> endswith (normalize_statement s) ''end;''"
  shows "same_result
           (for_statements pn tn (pre @ b # post) 0 (pre @ b # post) scan_init)
           (for_statements pn tn (pre @ filter is_definition post) 0
              (pre @ filter is_definition post) scan_init)"
proof -
  let ?S = "pre @ b # post" and ?S' = "pre @ filter is_definition post"
  let ?st = "for_statements pn tn ?S 0 pre scan_init"
  have pre_eq: "for_statements pn tn ?S' 0 pre scan_init = ?st"
    using for_statements_prefix[of pn tn "[]" pre "filter is_definition post" scan_init "b # post"]
    by simp
  have nd: "\<not> is_definition b" using assms(1) by (rule begin_not_definition)
  let ?stb = "loop_body pn tn ?S (length pre) b ?st"
  have b1: "same_result ?stb ?st" and b2: "0 \<le> procedure_start ?stb"
    using loop_body_in_span[OF nd assms(2)] assms(1) by simp_all
  have "same_result (for_statements pn tn ?S (Suc (length pre)) post ?stb)
          (for_statements pn tn ?S' (length pre) (filter is_definition post) ?st)"
    by (rule for_statements_open_span[OF assms(3) b1 b2])
  moreover have "for_statements pn tn ?S 0 ?S scan_init
      = for_statements pn tn ?S (Suc (length pre)) post ?stb"
    by (simp add: for_statements_append)
  moreover have "for_statements pn tn ?S' 0 ?S' scan_init
      = for_statements pn tn ?S' (length pre) (filter is_definition post) ?st"
    by (simp add: for_statements_append pre_eq)
  ultimately show ?thesis by simp
qed

lemma from_text_same_result:
  assumes "same_result
      (for_statements (ds @ ''.'' @ n) (ds @ ''_'' @ n)
         (filter (\<lambda>s. strip s \<noteq> []) (split1 (sql_format text))) 0
         (filter (\<lambda>s. strip s \<noteq> []) (split1 (sql_format text))) scan_init)
      (for_statements (ds @ ''.'' @ n) (ds @ ''_'' @ n)
         (filter (\<lambda>s. strip s \<noteq> []) (split2 (sql_format text))) 0
         (filter (\<lambda>s. strip s \<noteq> []) (split2 (sql_format text))) scan_init)"
  shows "from_text sql_format split1 registry text ds n path descr is_defined
       = from_text sql_format split2 registry text ds n path descr is_defined"
proof -
  from assms have eqs:
    "defs (for_statements (ds @ ''.'' @ n) (ds @ ''_'' @ n)
         (filter (\<lambda>s. strip s \<noteq> []) (split1 (sql_format text))) 0
         (filter (\<lambda>s. strip s \<noteq> []) (split1 (sql_format text))) scan_init)
     = defs (for_statements (ds @ ''.'' @ n) (ds @ ''_'' @ n)
         (filter (\<lambda>s. strip s \<noteq> []) (split2 (sql_format text))) 0
         (filter (\<lambda>s. strip s \<noteq> []) (split2 (sql_format text))) scan_init)"
    "tsts (for_statements (ds @ ''.'' @ n) (ds @ ''_'' @ n)
         (filter (\<lambda>s. strip s \<noteq> []) (split1 (sql_format text))) 0
         (filter (\<lambda>s. strip s \<noteq> []) (split1 (sql_format text))) scan_init)
     = tsts (for_statements (ds @ ''.'' @ n) (ds @ ''_'' @ n)
         (filter (\<lambda>s. strip s \<noteq> []) (split2 (sql_format text))) 0
         (filter (\<lambda>s. strip s \<noteq> []) (split2 (sql_format text))) scan_init)"
    "internal_name (for_statements (ds @ ''.'' @ n) (ds @ ''_'' @ n)
         (filter (\<lambda>s. strip s \<noteq> []) (split1 (sql_format text))) 0
         (filter (\<lambda>s. strip s \<noteq> []) (split1 (sql_format text))) scan_init)
     = internal_name (for_statements (ds @ ''.'' @ n) (ds @ ''_'' @ n)
         (filter (\<lambda>s. strip s \<noteq> []) (split2 (sql_format text))) 0
         (filter (\<lambda>s. strip s \<noteq> []) (split2 (sql_format text))) scan_init)"
    "is_procedure (for_statements (ds @ ''.'' @ n) (ds @ ''_'' @ n)
         (filter (\<lambda>s. strip s \<noteq> []) (split1 (sql_format text))) 0
         (filter (\<lambda>s. strip s \<noteq> []) (split1 (sql_format text))) scan_init)
     = is_procedure (for_statements (ds @ ''.'' @ n) (ds @ ''_'' @ n)
         (filter (\<lambda>s. strip s \<noteq> []) (split2 (sql_format text))) 0
         (filter (\<lambda>s. strip s \<noteq> []) (split2 (sql_format text))) scan_init)"
    unfolding same_result_def by blast+
  show ?thesis unfolding from_text_def Let_def by (simp only: eqs)
qed

text \<open>
  C5 (as amended). The source has no error for a span that is opened and never closed.
  When a statement that starts with \<open>begin\<close> (and does not itself end with \<open>end;\<close>) is
  followed by no free-standing statement that ends with \<open>end;\<close>, the outcome of
  \<open>from_text\<close>, record or error, is the one for the text without the opening statement
  and the free-standing statements after it: they are dropped without a trace.
\<close>

theorem from_text_unterminated_span:
  assumes "filter (\<lambda>s. strip s \<noteq> []) (sql_split (sql_format text)) = pre @ b # post"
    and "startswith (normalize_statement b) ''begin''"
    and "\<not> endswith (normalize_statement b) ''end;''"
    and "\<forall>s\<in>set post. is_definition s \<or> \<not> endswith (normalize_statement s) ''end;''"
  shows "from_text sql_format sql_split registry text ds n path descr is_defined
       = from_text sql_format (\<lambda>sql. pre @ filter is_definition post) registry text ds n path
           descr is_defined"
proof -
  have "\<forall>s\<in>set (pre @ b # post). strip s \<noteq> []"
  proof -
    have "\<forall>s\<in>set (filter (\<lambda>s. strip s \<noteq> []) (sql_split (sql_format text))). strip s \<noteq> []"
      by simp
    then show ?thesis by (simp only: assms(1))
  qed
  then have keep: "filter (\<lambda>s. strip s \<noteq> []) (pre @ filter is_definition post)
      = pre @ filter is_definition post"
    by (auto simp: filter_id_conv intro: filter_cong)
  show ?thesis
    by (rule from_text_same_result)
      (simp only: assms(1) keep for_statements_unterminated[OF assms(2,3,4)])
qed

theorem from_text_unterminated_span_witness:
  "filter (\<lambda>s. strip s \<noteq> [])
     (plain_split (plain_format
        ''CREATE OR REPLACE FUNCTION udf.f() AS (1); SELECT 1; BEGIN SELECT 2; SELECT 3;''))
   = [''CREATE OR REPLACE FUNCTION udf.f() AS (1);'', ''SELECT 1;''] @ ''BEGIN SELECT 2;'' # [''SELECT 3;'']
   \<and> startswith (normalize_statement ''BEGIN SELECT 2;'') ''begin''
   \<and> \<not> endswith (normalize_statement ''BEGIN SELECT 2;'') ''end;''
   \<and> \<not> endswith (normalize_statement ''SELECT 3;'') ''end;''
   \<and> from_text plain_format plain_split []
        ''CREATE OR REPLACE FUNCTION udf.f() AS (1); SELECT 1; BEGIN SELECT 2; SELECT 3;''
        ''udf'' ''f'' None [] True
     = from_text plain_format
        (\<lambda>sql. [''CREATE OR REPLACE FUNCTION udf.f() AS (1);'', ''SELECT 1;'']
               @ filter is_definition [''SELECT 3;''])
        [] ''CREATE OR REPLACE FUNCTION udf.f() AS (1); SELECT 1; BEGIN SELECT 2; SELECT 3;''
        ''udf'' ''f'' None [] True"
proof -
  have h1: "filter (\<lambda>s. strip s \<noteq> [])
     (plain_split (plain_format
        ''CREATE OR REPLACE FUNCTION udf.f() AS (1); SELECT 1; BEGIN SELECT 2; SELECT 3;''))
   = [''CREATE OR REPLACE FUNCTION udf.f() AS (1);'', ''SELECT 1;''] @ ''BEGIN SELECT 2;'' # [''SELECT 3;'']"
    by code_simp
  have h2: "startswith (normalize_statement ''BEGIN SELECT 2;'') ''begin''" by code_simp
  have h3: "\<not> endswith (normalize_statement ''BEGIN SELECT 2;'') ''end;''" by code_simp
  have h5: "\<not> endswith (normalize_statement ''SELECT 3;'') ''end;''" by code_simp
  then have h4: "\<forall>s\<in>set [''SELECT 3;'']. is_definition s \<or> \<not> endswith (normalize_statement s) ''end;''"
    by simp
  from from_text_unterminated_span[where sql_format = plain_format and sql_split = plain_split,
      OF h1 h2 h3 h4] h1 h2 h3 h5 show ?thesis by blast
qed

text \<open>
  Counterexample to C5 as stated: the span opened by \<open>BEGIN SELECT 2;\<close> is never closed,
  and \<open>from_text\<close> returns a record whose tests have lost both statements of the span.
\<close>

theorem from_text_unterminated_span_counterexample:
  "from_text plain_format plain_split []
     ''CREATE OR REPLACE FUNCTION udf.f() AS (1); SELECT 1; BEGIN SELECT 2; SELECT 3;''
     ''udf'' ''f'' None [] True
   = Inr \<lparr>name = ''udf.f'', dataset = ''udf'', filepath = None,
           definitions = [''CREATE OR REPLACE FUNCTION udf.f() AS (1);''],
           tests = [''SELECT 1;''], dependencies = [],
           description = [], is_stored_procedure = False\<rparr>"
  by code_simp

section \<open>Properties of the name check\<close>

lemma identifier_end_iff:
  assumes "newline \<notin> set s"
  shows "identifier_end s = udf_identifier s"
proof (cases s)
  case Nil
  then show ?thesis by (simp add: identifier_end_def udf_identifier_def)
next
  case (Cons c r)
  let ?k = "min 255 (length (takeWhile word_char r))"
  have nl: "drop ?k r \<noteq> [newline]"
  proof
    assume "drop ?k r = [newline]"
    then have "newline \<in> set (drop ?k r)" by simp
    then have "newline \<in> set r" by (rule in_set_dropD)
    with assms Cons show False by simp
  qed
  have "drop ?k r = [] \<longleftrightarrow> length r \<le> 255 \<and> list_all word_char r"
  proof
    assume "drop ?k r = []"
    then have le: "length r \<le> ?k" by simp
    then have "length r \<le> length (takeWhile word_char r)" by simp
    then have "takeWhile word_char r = r"
      by (metis length_takeWhile_le le_antisym takeWhile_eq_take take_all)
    then have "list_all word_char r"
      by (metis list_all_iff set_takeWhileD)
    with le show "length r \<le> 255 \<and> list_all word_char r" by simp
  next
    assume a: "length r \<le> 255 \<and> list_all word_char r"
    then have tw: "takeWhile word_char r = r"
      unfolding takeWhile_eq_all_conv by (simp add: list_all_iff)
    show "drop ?k r = []" unfolding tw using a by simp
  qed
  with nl show ?thesis
    unfolding Cons identifier_end_def udf_identifier_def by (auto simp: Let_def)
qed

lemma not_word_char_dot: "\<not> word_char (CHR ''.'')"
  by (simp add: word_char_def)

lemma UDF_NAME_RE_group_iff:
  assumes "newline \<notin> set s"
  shows "(case dropWhile word_char s of
            [] \<Rightarrow> False
          | c # r \<Rightarrow> c = CHR ''.'' \<and> takeWhile word_char s \<noteq> [] \<and> identifier_end r)
         \<longleftrightarrow> (takeWhile (\<lambda>c. c \<noteq> CHR ''.'') s \<noteq> []
              \<and> list_all word_char (takeWhile (\<lambda>c. c \<noteq> CHR ''.'') s)
              \<and> dropWhile (\<lambda>c. c \<noteq> CHR ''.'') s \<noteq> []
              \<and> udf_identifier (tl (dropWhile (\<lambda>c. c \<noteq> CHR ''.'') s)))"
    (is "?G \<longleftrightarrow> ?R")
proof
  assume ?G
  then obtain r where dw: "dropWhile word_char s = CHR ''.'' # r"
    and tw: "takeWhile word_char s \<noteq> []" and ie: "identifier_end r"
    by (auto split: list.splits)
  define w where "w = takeWhile word_char s"
  have s: "s = w @ CHR ''.'' # r"
    unfolding w_def using dw by (metis takeWhile_dropWhile_id)
  have allw: "list_all word_char w"
    unfolding w_def by (simp add: list_all_iff) (meson set_takeWhileD)
  then have nodot: "list_all (\<lambda>c. c \<noteq> CHR ''.'') w"
    using not_word_char_dot by (auto simp: list_all_iff)
  have split: "takeWhile (\<lambda>c. c \<noteq> CHR ''.'') (w @ CHR ''.'' # r) = w
      \<and> dropWhile (\<lambda>c. c \<noteq> CHR ''.'') (w @ CHR ''.'' # r) = CHR ''.'' # r"
    by (rule takeWhile_run[OF nodot]) simp
  have "newline \<notin> set r" using assms unfolding s by simp
  then have "udf_identifier r" using ie identifier_end_iff by simp
  moreover have "w \<noteq> []" using tw by (simp add: w_def)
  ultimately show ?R using split allw unfolding s by simp
next
  assume a: ?R
  define d where "d = takeWhile (\<lambda>c. c \<noteq> CHR ''.'') s"
  define t where "t = dropWhile (\<lambda>c. c \<noteq> CHR ''.'') s"
  from a have d: "d \<noteq> []" "list_all word_char d" and t: "t \<noteq> []" "udf_identifier (tl t)"
    unfolding d_def t_def by simp_all
  have "hd t = CHR ''.''"
    using hd_dropWhile[of "\<lambda>c. c \<noteq> CHR ''.''" s] t(1) unfolding t_def by simp
  with t(1) obtain r where r: "t = CHR ''.'' # r" by (cases t) auto
  have s: "s = d @ CHR ''.'' # r"
    unfolding d_def r[symmetric] t_def by simp
  have run: "takeWhile word_char (d @ CHR ''.'' # r) = d
      \<and> dropWhile word_char (d @ CHR ''.'' # r) = CHR ''.'' # r"
    by (rule takeWhile_run[OF d(2)]) (simp add: not_word_char_dot)
  have "newline \<notin> set r" using assms unfolding s by simp
  moreover have "udf_identifier r" using t(2) r by simp
  ultimately have "identifier_end r" using identifier_end_iff by simp
  with run d(1) show ?G unfolding s by simp
qed

lemma UDF_NAME_RE_iff:
  assumes "newline \<notin> set s"
  shows "UDF_NAME_RE s = name_rule s"
  unfolding UDF_NAME_RE_def name_rule_def UDF_NAME_RE_group_iff[OF assms]
    identifier_end_iff[OF assms]
  by blast

lemma from_text_scan_text:
  "from_text sql_format sql_split registry text ds n path descr is_defined
   = (case check_names (ds @ ''.'' @ n) (ds @ ''_'' @ n) n
            (internal_name (scan_text sql_format sql_split text ds n)) is_defined of
        Inl e \<Rightarrow> Inl e
      | Inr internal \<Rightarrow>
          if is_defined \<and> internal \<notin> set (found_dependencies registry
                 (defs (scan_text sql_format sql_split text ds n)))
          then Inl (ValueError remove_message)
          else Inr \<lparr>name = internal, dataset = ds, filepath = path,
                    definitions = defs (scan_text sql_format sql_split text ds n),
                    tests = tsts (scan_text sql_format sql_split text ds n),
                    dependencies = sort (remdups (if is_defined
                       then remove1 internal (found_dependencies registry
                              (defs (scan_text sql_format sql_split text ds n)))
                       else found_dependencies registry
                              (defs (scan_text sql_format sql_split text ds n)))),
                    description = descr,
                    is_stored_procedure = is_procedure (scan_text sql_format sql_split text ds n)\<rparr>)"
  unfolding from_text_def scan_text_def Let_def by (rule refl)

lemma remove_message_not_invalid: "remove_message \<noteq> invalid_message m"
  by (simp add: remove_message_def invalid_message_def)

lemma expected_message_not_invalid: "expected_message a b \<noteq> invalid_message m"
  by (simp add: expected_message_def invalid_message_def)

lemma invalid_message_inj: "invalid_message a = invalid_message b \<Longrightarrow> a = b"
  by (simp add: invalid_message_def)

text \<open>
  C9 (as amended). When the loop has resolved a name and a definition is required,
  \<open>from_text\<close> raises the invalid-name error exactly when the directory name or the
  resolved name breaks the rule of \<open>UDF_NAME_RE\<close>: an optional prefix of letters, digits
  and underscores that ends in a dot, then a letter, then letters, digits and
  underscores, the part after the prefix being at most 256 characters long. (Names
  without a newline; a name that passes can still be refused later, when it is not among
  the references found in its definitions.)
\<close>

theorem from_text_invalid_name_iff:
  assumes "internal_name (scan_text sql_format sql_split text ds n) = Some internal"
    and "newline \<notin> set n" and "newline \<notin> set internal"
  shows "(\<exists>m. from_text sql_format sql_split registry text ds n path descr True
               = Inl (ValueError (invalid_message m)))
         \<longleftrightarrow> \<not> (name_rule n \<and> name_rule internal)"
proof -
  have n: "UDF_NAME_RE n = name_rule n" and i: "UDF_NAME_RE internal = name_rule internal"
    using assms(2,3) by (simp_all add: UDF_NAME_RE_iff)
  show ?thesis
  proof (cases "name_rule n \<and> name_rule internal")
    case True
    then have "check_names (ds @ ''.'' @ n) (ds @ ''_'' @ n) n (Some internal) True = Inr internal"
      using n i by (simp add: check_names_def)
    then have "from_text sql_format sql_split registry text ds n path descr True
        \<noteq> Inl (ValueError (invalid_message m))" for m
      unfolding from_text_scan_text assms(1) using remove_message_not_invalid by simp
    with True show ?thesis by blast
  next
    case False
    then have "check_names (ds @ ''.'' @ n) (ds @ ''_'' @ n) n (Some internal) True
        = Inl (ValueError (invalid_message (if name_rule n then internal else n)))"
      using n i by (auto simp: check_names_def)
    then have "from_text sql_format sql_split registry text ds n path descr True
        = Inl (ValueError (invalid_message (if name_rule n then internal else n)))"
      unfolding from_text_scan_text assms(1) by simp
    with False show ?thesis by blast
  qed
qed

theorem from_text_invalid_name_iff_witness:
  "internal_name (scan_text plain_format plain_split
       ''CREATE OR REPLACE FUNCTION udf.1f() AS (1);'' ''udf'' ''1f'') = Some ''udf.1f''
   \<and> newline \<notin> set ''1f'' \<and> newline \<notin> set ''udf.1f'' \<and> \<not> name_rule ''1f''
   \<and> (\<exists>m. from_text plain_format plain_split []
              ''CREATE OR REPLACE FUNCTION udf.1f() AS (1);'' ''udf'' ''1f'' None [] True
            = Inl (ValueError (invalid_message m)))
   \<and> internal_name (scan_text plain_format plain_split
       ''CREATE OR REPLACE FUNCTION udf.f() AS (1);'' ''udf'' ''f'') = Some ''udf.f''
   \<and> newline \<notin> set ''f'' \<and> newline \<notin> set ''udf.f'' \<and> name_rule ''f'' \<and> name_rule ''udf.f''
   \<and> \<not> (\<exists>m. from_text plain_format plain_split []
              ''CREATE OR REPLACE FUNCTION udf.f() AS (1);'' ''udf'' ''f'' None [] True
            = Inl (ValueError (invalid_message m)))"
proof -
  have a1: "internal_name (scan_text plain_format plain_split
       ''CREATE OR REPLACE FUNCTION udf.1f() AS (1);'' ''udf'' ''1f'') = Some ''udf.1f''"
    by code_simp
  have a2: "newline \<notin> set ''1f''" and a3: "newline \<notin> set ''udf.1f''"
    by (simp_all add: newline_def)
  have a4: "\<not> name_rule ''1f''" by code_simp
  have b1: "internal_name (scan_text plain_format plain_split
       ''CREATE OR REPLACE FUNCTION udf.f() AS (1);'' ''udf'' ''f'') = Some ''udf.f''"
    by code_simp
  have b2: "newline \<notin> set ''f''" and b3: "newline \<notin> set ''udf.f''"
    by (simp_all add: newline_def)
  have b4: "name_rule ''f'' \<and> name_rule ''udf.f''" by code_simp
  from from_text_invalid_name_iff[OF a1 a2 a3, of "[]" None "[]"] a4
  have a: "\<exists>m. from_text plain_format plain_split []
              ''CREATE OR REPLACE FUNCTION udf.1f() AS (1);'' ''udf'' ''1f'' None [] True
            = Inl (ValueError (invalid_message m))" by blast
  from from_text_invalid_name_iff[OF b1 b2 b3, of "[]" None "[]"] b4
  have b: "\<not> (\<exists>m. from_text plain_format plain_split []
              ''CREATE OR REPLACE FUNCTION udf.f() AS (1);'' ''udf'' ''f'' None [] True
            = Inl (ValueError (invalid_message m)))" by blast
  from a1 a2 a3 a4 a b1 b2 b3 b4 b show ?thesis by blast
qed

text \<open>
  Counterexample to C9 as stated. The names \<open>f\<close> and \<open>ds.f\<close> satisfy the rule, and
  \<open>from_text\<close> raises all the same: \<open>ds.f\<close> is not among the references that the
  patterns find in the definition, and \<^verbatim>\<open>list.remove\<close> fails. And a resolved name of 258
  characters is accepted, because the bound of the pattern does not count the prefix.
\<close>

theorem from_text_invalid_name_counterexample:
  "name_rule ''f'' \<and> name_rule ''ds.f''
   \<and> from_text plain_format plain_split [] ''CREATE OR REPLACE FUNCTION ds.f() AS (1);''
        ''ds'' ''f'' None [] True = Inl (ValueError ''list.remove(x): x not in list'')
   \<and> (case from_text plain_format plain_split []
          (''CREATE OR REPLACE FUNCTION udf'' @ replicate 251 (CHR ''x'') @ ''.fgh() AS (1);'')
          (''udf'' @ replicate 251 (CHR ''x'')) ''fgh'' None [] True of
        Inl e \<Rightarrow> False
      | Inr r \<Rightarrow> name r = ''udf'' @ replicate 251 (CHR ''x'') @ ''.fgh'' \<and> length (name r) = 258)"
  by code_simp

section \<open>Termination and order of the resolver on acyclic catalogs\<close>

lemma dep_rel_finite:
  assumes "finite (dom raw_udfs)"
  shows "finite (dep_rel raw_udfs)"
proof -
  have "dep_rel raw_udfs
      \<subseteq> (\<Union>a\<in>dom raw_udfs. set (dependencies (the (raw_udfs a)))) \<times> dom raw_udfs"
    unfolding dep_rel_def depends_on_def by (auto split: option.splits)
  moreover have "finite ((\<Union>a\<in>dom raw_udfs. set (dependencies (the (raw_udfs a)))) \<times> dom raw_udfs)"
    using assms by simp
  ultimately show ?thesis by (rule finite_subset)
qed

lemma dep_rel_trancl_path:
  "(x, y) \<in> (dep_rel raw_udfs)\<^sup>+ \<Longrightarrow> \<exists>path. dep_path raw_udfs y path x"
proof (induction rule: trancl_induct)
  case (base y)
  then have "dep_path raw_udfs y [] x" by (simp add: dep_rel_def)
  then show ?case ..
next
  case (step y z)
  then obtain path where "dep_path raw_udfs y path x" by blast
  moreover from step have "depends_on raw_udfs z y" by (simp add: dep_rel_def)
  ultimately have "dep_path raw_udfs z (y # path) x" by simp
  then show ?case ..
qed

lemma dep_rel_wf:
  assumes "finite (dom raw_udfs)" and "\<forall>n path. \<not> on_cycle raw_udfs n path"
  shows "wf (dep_rel raw_udfs)"
proof -
  have "acyclic (dep_rel raw_udfs)"
    unfolding acyclic_def using dep_rel_trancl_path assms(2) on_cycle_def by blast
  with dep_rel_finite[OF assms(1)] show ?thesis by (rule finite_acyclic_wf)
qed

lemma for_deps_returns:
  assumes "\<forall>x\<in>set xs. \<forall>ds. \<exists>res. f ds x = Inr res"
  shows "\<exists>res. for_deps f xs deps = Inr res"
  using assms
proof (induction xs arbitrary: deps)
  case Nil
  then show ?case by simp
next
  case (Cons x xs)
  then obtain mid where "f deps x = Inr mid" by (metis list.set_intros(1))
  moreover from Cons obtain res where "for_deps f xs mid = Inr res"
    by (metis list.set_intros(2))
  ultimately show ?case by simp
qed

lemma common_bound:
  assumes "\<forall>x\<in>set xs. \<exists>k::nat. \<forall>frames\<ge>k. P frames x"
  shows "\<exists>k::nat. \<forall>x\<in>set xs. \<forall>frames\<ge>k. P frames x"
  using assms
proof (induction xs)
  case Nil
  then show ?case by simp
next
  case (Cons x xs)
  then obtain k1 where k1: "\<forall>frames\<ge>k1. P frames x" by auto
  from Cons obtain k2 where k2: "\<forall>y\<in>set xs. \<forall>frames\<ge>k2. P frames y" by auto
  have "\<forall>y\<in>set (x # xs). \<forall>frames\<ge>max k1 k2. P frames y"
  proof (intro ballI allI impI)
    fix y frames assume y: "y \<in> set (x # xs)" and "max k1 k2 \<le> frames"
    then have "k1 \<le> frames" and "k2 \<le> frames" by simp_all
    with y k1 k2 show "P frames y" by auto
  qed
  then show ?case ..
qed

lemma accumulate_dependencies_returns:
  assumes "wf (dep_rel raw_udfs)"
  shows "\<exists>k. \<forall>frames\<ge>k. \<forall>deps. \<exists>res. accumulate_dependencies frames deps raw_udfs a = Inr res"
  using assms
proof (induction a rule: wf_induct_rule)
  case (less a)
  show ?case
  proof (cases "raw_udfs a")
    case None
    have "\<forall>frames\<ge>1. \<forall>deps. \<exists>res. accumulate_dependencies frames deps raw_udfs a = Inr res"
    proof (intro allI impI)
      fix frames :: nat and deps assume "1 \<le> frames"
      then obtain f where "frames = Suc f" by (cases frames) auto
      with None show "\<exists>res. accumulate_dependencies frames deps raw_udfs a = Inr res" by simp
    qed
    then show ?thesis ..
  next
    case (Some r)
    have "\<forall>b\<in>set (dependencies r). \<exists>k. \<forall>frames\<ge>k.
        (\<forall>deps. \<exists>res. accumulate_dependencies frames deps raw_udfs b = Inr res)"
    proof
      fix b assume "b \<in> set (dependencies r)"
      with Some have "(b, a) \<in> dep_rel raw_udfs" by (simp add: dep_rel_def depends_on_def)
      then show "\<exists>k. \<forall>frames\<ge>k.
        (\<forall>deps. \<exists>res. accumulate_dependencies frames deps raw_udfs b = Inr res)"
        by (rule less.IH)
    qed
    from common_bound[OF this] obtain k where
      k: "\<forall>b\<in>set (dependencies r). \<forall>frames\<ge>k.
            \<forall>deps. \<exists>res. accumulate_dependencies frames deps raw_udfs b = Inr res" by blast
    have "\<forall>frames\<ge>Suc k. \<forall>deps. \<exists>res. accumulate_dependencies frames deps raw_udfs a = Inr res"
    proof (intro allI impI)
      fix frames :: nat and deps assume "Suc k \<le> frames"
      then obtain f where f: "frames = Suc f" "k \<le> f" by (cases frames) auto
      have "\<exists>mid. for_deps (\<lambda>ds dep. accumulate_dependencies f ds raw_udfs dep)
          (dependencies r) deps = Inr mid"
        by (rule for_deps_returns) (use k f(2) in blast)
      then show "\<exists>res. accumulate_dependencies frames deps raw_udfs a = Inr res"
        using Some f(1) by auto
    qed
    then show ?thesis ..
  qed
qed

lemma grows_subset: "grows raw_udfs deps res \<Longrightarrow> set deps \<subseteq> set res"
  by (auto simp: grows_def)

lemma accumulate_dependencies_member:
  assumes "accumulate_dependencies frames deps raw_udfs a = Inr res" and "raw_udfs a = Some r"
  shows "a \<in> set res"
proof (cases frames)
  case 0
  with assms show ?thesis by simp
next
  case (Suc f)
  with assms show ?thesis by (auto split: sum.splits if_splits)
qed

lemma for_deps_member:
  assumes "\<And>ds x r. f ds x = Inr r \<Longrightarrow> grows raw_udfs ds r"
    and "\<And>ds r. f ds a = Inr r \<Longrightarrow> a \<in> set r"
  shows "a \<in> set xs \<Longrightarrow> for_deps f xs deps = Inr res \<Longrightarrow> a \<in> set res"
proof (induction xs arbitrary: deps)
  case Nil
  then show ?case by simp
next
  case (Cons x xs)
  from Cons.prems(2) obtain mid where m: "f deps x = Inr mid" and r: "for_deps f xs mid = Inr res"
    by (auto split: sum.splits)
  show ?case
  proof (cases "a = x")
    case True
    with m assms(2) have "a \<in> set mid" by blast
    moreover have "grows raw_udfs mid res" using for_deps_grows[OF assms(1) r] .
    ultimately show ?thesis using grows_subset by blast
  next
    case False
    with Cons.prems(1) have "a \<in> set xs" by simp
    from Cons.IH[OF this r] show ?thesis .
  qed
qed

lemma deps_first_snoc:
  assumes "deps_first raw_udfs l"
    and "\<forall>b. depends_on raw_udfs a b \<and> b \<in> dom raw_udfs \<longrightarrow> b \<in> set l"
  shows "deps_first raw_udfs (l @ [a])"
  unfolding deps_first_def
proof (intro allI impI, elim conjE)
  fix pre x post b
  assume eq: "l @ [a] = pre @ x # post" and d: "depends_on raw_udfs x b" and b: "b \<in> dom raw_udfs"
  show "b \<in> set pre"
  proof (cases post rule: rev_cases)
    case Nil
    with eq have "pre = l" "x = a" by simp_all
    with assms(2) d b show ?thesis by blast
  next
    case (snoc post' y)
    with eq have "l = pre @ x # post'" by simp
    with assms(1) d b show ?thesis unfolding deps_first_def by blast
  qed
qed

lemma for_deps_deps_first:
  assumes "\<And>ds x r. deps_first raw_udfs ds \<Longrightarrow> f ds x = Inr r \<Longrightarrow> deps_first raw_udfs r"
  shows "deps_first raw_udfs deps \<Longrightarrow> for_deps f xs deps = Inr res \<Longrightarrow> deps_first raw_udfs res"
proof (induction xs arbitrary: deps)
  case Nil
  then show ?case by simp
next
  case (Cons x xs)
  from Cons.prems(2) obtain mid where m: "f deps x = Inr mid" and r: "for_deps f xs mid = Inr res"
    by (auto split: sum.splits)
  from assms[OF Cons.prems(1) m] have "deps_first raw_udfs mid" .
  from Cons.IH[OF this r] show ?case .
qed

lemma accumulate_dependencies_deps_first:
  "deps_first raw_udfs deps \<Longrightarrow> accumulate_dependencies frames deps raw_udfs a = Inr res
   \<Longrightarrow> deps_first raw_udfs res"
proof (induction frames arbitrary: deps a res)
  case 0
  then show ?case by simp
next
  case (Suc frames)
  show ?case
  proof (cases "raw_udfs a")
    case None
    with Suc.prems show ?thesis by simp
  next
    case (Some r)
    let ?f = "\<lambda>ds dep. accumulate_dependencies frames ds raw_udfs dep"
    from Suc.prems(2) Some obtain mid where
      loop: "for_deps ?f (dependencies r) deps = Inr mid"
      and res: "res = (if a \<in> set mid then mid else mid @ [a])"
      by (auto split: sum.splits if_splits)
    have mid: "deps_first raw_udfs mid"
      by (rule for_deps_deps_first[OF _ Suc.prems(1) loop]) (rule Suc.IH)
    show ?thesis
    proof (cases "a \<in> set mid")
      case True
      with res mid show ?thesis by simp
    next
      case False
      have "\<forall>b. depends_on raw_udfs a b \<and> b \<in> dom raw_udfs \<longrightarrow> b \<in> set mid"
      proof (intro allI impI, elim conjE)
        fix b assume "depends_on raw_udfs a b" and "b \<in> dom raw_udfs"
        then have mem: "b \<in> set (dependencies r)" and "\<exists>rb. raw_udfs b = Some rb"
          using Some by (auto simp: depends_on_def)
        then obtain rb where rb: "raw_udfs b = Some rb" by blast
        have m: "b \<in> set r'" if "accumulate_dependencies frames ds raw_udfs b = Inr r'" for ds r'
          using that rb by (rule accumulate_dependencies_member)
        show "b \<in> set mid"
          by (rule for_deps_member[where f = ?f and a = b, OF _ _ mem loop])
            (auto intro: accumulate_dependencies_grows m)
      qed
      from deps_first_snoc[OF mid this] res False show ?thesis by simp
    qed
  qed
qed

lemma definitions_of_append:
  "definitions_of raw_udfs text xs = Inr r1 \<Longrightarrow> definitions_of raw_udfs text ys = Inr r2
   \<Longrightarrow> definitions_of raw_udfs text (xs @ ys) = Inr (r1 @ r2)"
  by (induction xs arbitrary: r1) (auto split: option.splits sum.splits)

lemma definitions_of_returns:
  "set xs \<subseteq> dom raw_udfs \<Longrightarrow> \<exists>r. definitions_of raw_udfs text xs = Inr r"
  by (induction xs) (auto split: option.splits sum.splits)

lemma definitions_of_split:
  assumes "set (xs @ y # ys) \<subseteq> dom raw_udfs" and "raw_udfs y = Some ry"
    and "d \<in> set (definitions ry)" and "\<not> contains text d"
  shows "\<exists>r1 r2 u v. definitions_of raw_udfs text xs = Inr r1
      \<and> definitions_of raw_udfs text ys = Inr r2
      \<and> definitions_of raw_udfs text (xs @ y # ys) = Inr (r1 @ (u @ d # v) @ r2)"
proof -
  from assms(1) have "set xs \<subseteq> dom raw_udfs" and "set ys \<subseteq> dom raw_udfs" by auto
  then obtain r1 r2 where r1: "definitions_of raw_udfs text xs = Inr r1"
    and r2: "definitions_of raw_udfs text ys = Inr r2"
    by (meson definitions_of_returns)
  let ?fy = "filter (\<lambda>statement. \<not> contains text statement) (definitions ry)"
  have "d \<in> set ?fy" using assms(3,4) by simp
  then obtain u v where uv: "?fy = u @ d # v" by (meson split_list)
  have "definitions_of raw_udfs text (y # ys) = Inr (?fy @ r2)"
    using assms(2) r2 by simp
  with r1 have "definitions_of raw_udfs text (xs @ y # ys) = Inr (r1 @ ?fy @ r2)"
    by (rule definitions_of_append)
  with r1 r2 uv show ?thesis by auto
qed

lemma join_cons: "ys \<noteq> [] \<Longrightarrow> join sep (x # ys) = x @ sep @ join sep ys"
  by (cases ys) auto

lemma join_append:
  "ys \<noteq> [] \<Longrightarrow> \<exists>p. join sep (xs @ ys) = p @ join sep ys"
proof (induction xs)
  case Nil
  then show ?case by simp
next
  case (Cons x xs)
  then obtain p where "join sep (xs @ ys) = p @ join sep ys" by blast
  moreover have "join sep (x # xs @ ys) = x @ sep @ join sep (xs @ ys)"
    using Cons.prems by (simp add: join_cons)
  ultimately have "join sep ((x # xs) @ ys) = (x @ sep @ p) @ join sep ys" by simp
  then show ?case ..
qed

lemma join_order:
  "\<exists>p m s. join sep (X @ dB # Y @ dA # Z @ [t]) = p @ dB @ sep @ m @ dA @ sep @ s @ t"
proof -
  obtain p where p: "join sep (X @ dB # Y @ dA # Z @ [t]) = p @ join sep (dB # Y @ dA # Z @ [t])"
    using join_append[of "dB # Y @ dA # Z @ [t]" sep X] by auto
  have 1: "join sep (dB # Y @ dA # Z @ [t]) = dB @ sep @ join sep (Y @ dA # Z @ [t])"
    by (rule join_cons) simp
  obtain m where m: "join sep (Y @ dA # Z @ [t]) = m @ join sep (dA # Z @ [t])"
    using join_append[of "dA # Z @ [t]" sep Y] by auto
  have 2: "join sep (dA # Z @ [t]) = dA @ sep @ join sep (Z @ [t])"
    by (rule join_cons) simp
  obtain s where s: "join sep (Z @ [t]) = s @ join sep [t]"
    using join_append[of "[t]" sep Z] by auto
  have "join sep (X @ dB # Y @ dA # Z @ [t]) = p @ dB @ sep @ m @ dA @ sep @ s @ t"
    by (simp add: p 1 m 2 s)
  then show ?thesis by blast
qed

lemma usage_definitions_order:
  assumes wf: "wf (dep_rel raw_udfs)"
    and a: "raw_udfs a = Some ra" and b: "raw_udfs b = Some rb"
    and dep: "b \<in> set (dependencies ra)"
    and use: "a \<in> set usages"
    and dA: "dA \<in> set (definitions ra)" "\<not> contains test dA"
    and dB: "dB \<in> set (definitions rb)" "\<not> contains test dB"
  shows "\<exists>k. \<forall>frames\<ge>k. \<exists>X Y Z.
      (case for_deps (\<lambda>ds udf_usage. accumulate_dependencies frames ds raw_udfs udf_usage)
              usages [] of
         Inl e \<Rightarrow> Inl e
       | Inr deps \<Rightarrow> definitions_of raw_udfs test deps) = Inr (X @ dB # Y @ dA # Z)"
proof -
  have "\<forall>u\<in>set usages. \<exists>k. \<forall>frames\<ge>k.
      (\<forall>deps. \<exists>res. accumulate_dependencies frames deps raw_udfs u = Inr res)"
    using accumulate_dependencies_returns[OF wf] by blast
  from common_bound[OF this] obtain k where
    k: "\<forall>u\<in>set usages. \<forall>frames\<ge>k.
          \<forall>deps. \<exists>res. accumulate_dependencies frames deps raw_udfs u = Inr res" by blast
  have "\<exists>X Y Z.
      (case for_deps (\<lambda>ds udf_usage. accumulate_dependencies frames ds raw_udfs udf_usage)
              usages [] of
         Inl e \<Rightarrow> Inl e
       | Inr deps \<Rightarrow> definitions_of raw_udfs test deps) = Inr (X @ dB # Y @ dA # Z)"
    if "k \<le> frames" for frames
  proof -
    let ?f = "\<lambda>ds udf_usage. accumulate_dependencies frames ds raw_udfs udf_usage"
    have "\<exists>D. for_deps ?f usages [] = Inr D"
      by (rule for_deps_returns) (use k that in blast)
    then obtain D where D: "for_deps ?f usages [] = Inr D" by blast
    have "grows raw_udfs [] D"
      by (rule for_deps_grows[OF _ D]) (rule accumulate_dependencies_grows)
    then have dom: "set D \<subseteq> dom raw_udfs" by (auto simp: grows_def)
    have e: "deps_first raw_udfs []" by (simp add: deps_first_def)
    have first: "deps_first raw_udfs D"
      by (rule for_deps_deps_first[where f = ?f, OF _ e D])
        (rule accumulate_dependencies_deps_first)
    have m: "a \<in> set r'" if "accumulate_dependencies frames ds raw_udfs a = Inr r'" for ds r'
      using that a by (rule accumulate_dependencies_member)
    have "a \<in> set D"
      by (rule for_deps_member[where f = ?f and a = a, OF _ _ use D])
        (auto intro: accumulate_dependencies_grows m)
    then obtain pre post where D1: "D = pre @ a # post" by (meson split_list)
    have "depends_on raw_udfs a b" using a dep by (simp add: depends_on_def)
    moreover have "b \<in> dom raw_udfs" using b by blast
    ultimately have "b \<in> set pre" using first D1 unfolding deps_first_def by blast
    then obtain p1 p2 where pre: "pre = p1 @ b # p2" by (meson split_list)
    have D2: "D = p1 @ b # (p2 @ a # post)" using D1 pre by simp
    from dom D2 have dom1: "set (p1 @ b # (p2 @ a # post)) \<subseteq> dom raw_udfs" by simp
    then have dom2: "set (p2 @ a # post) \<subseteq> dom raw_udfs" by simp
    from definitions_of_split[OF dom1 b dB] obtain r1 r2 u v where
      r2: "definitions_of raw_udfs test (p2 @ a # post) = Inr r2"
      and all: "definitions_of raw_udfs test (p1 @ b # (p2 @ a # post)) = Inr (r1 @ (u @ dB # v) @ r2)"
      by blast
    from definitions_of_split[OF dom2 a dA] obtain r3 r4 u' v' where
      "definitions_of raw_udfs test (p2 @ a # post) = Inr (r3 @ (u' @ dA # v') @ r4)"
      by blast
    with r2 have "r2 = r3 @ (u' @ dA # v') @ r4" by simp
    with all have "definitions_of raw_udfs test D
        = Inr ((r1 @ u) @ dB # (v @ r3 @ u') @ dA # (v' @ r4))"
      unfolding D2 by simp
    with D show ?thesis by (metis sum.simps(6))
  qed
  then show ?thesis by blast
qed



text \<open>
  The text that \<open>prepend_udf_usage_definitions\<close> builds, before any rewriting: the
  definition statement \<open>dB\<close> stands before \<open>dA\<close>, and \<open>dA\<close> before the test at the end.
\<close>

lemma prepend_udf_usage_definitions_order:
  assumes "finite (dom raw_udfs)" and "\<forall>n path. \<not> on_cycle raw_udfs n path"
    and "raw_udfs a = Some ra" and "raw_udfs b = Some rb"
    and "b \<in> set (dependencies ra)"
    and "a \<in> set (udf_usages_in_text sql_format registry test)"
    and "dA \<in> set (definitions ra)" and "\<not> contains test dA"
    and "dB \<in> set (definitions rb)" and "\<not> contains test dB"
  shows "\<exists>k. \<forall>frames\<ge>k. \<exists>p m s.
      prepend_udf_usage_definitions frames sql_format registry test raw_udfs
      = Inr (p @ dB @ [newline, newline] @ m @ dA @ [newline, newline] @ s @ test)"
proof -
  have wf: "wf (dep_rel raw_udfs)" using assms(1,2) by (rule dep_rel_wf)
  from usage_definitions_order[OF wf assms(3,4,5,6,7,8,9,10)] obtain k where
    k: "\<forall>frames\<ge>k. \<exists>X Y Z.
          udf_usage_definitions frames sql_format registry test raw_udfs
          = Inr (X @ dB # Y @ dA # Z)"
    unfolding udf_usage_definitions_def by blast
  have "\<exists>p m s. prepend_udf_usage_definitions frames sql_format registry test raw_udfs
      = Inr (p @ dB @ [newline, newline] @ m @ dA @ [newline, newline] @ s @ test)"
    if "k \<le> frames" for frames
  proof -
    from k that obtain X Y Z where
      "udf_usage_definitions frames sql_format registry test raw_udfs = Inr (X @ dB # Y @ dA # Z)"
      by blast
    then have "prepend_udf_usage_definitions frames sql_format registry test raw_udfs
        = Inr (join [newline, newline] (X @ dB # Y @ dA # Z @ [test]))"
      by (simp add: prepend_udf_usage_definitions_def)
    with join_order[of "[newline, newline]" X dB Y dA Z test] show ?thesis by auto
  qed
  then show ?thesis by blast
qed

section \<open>The sentinel \<open>udf_js\<close> in the usages\<close>

lemma collect_Inr:
  "collect xs = Inr vs \<Longrightarrow> v \<in> set vs \<Longrightarrow> Inr v \<in> set xs"
proof (induction xs arbitrary: vs)
  case Nil
  then show ?case by simp
next
  case (Cons x xs)
  then show ?case by (auto split: sum.splits)
qed

lemma routine_of_dot: "routine_of root filename = Inr r \<Longrightarrow> CHR ''.'' \<in> set (routine_name r)"
  by (auto simp: routine_of_def Let_def split: if_splits)

lemma MOZFUN_ROUTINES_dot:
  assumes "MOZFUN_ROUTINES walk = Inr registry" and "r \<in> set registry"
  shows "CHR ''.'' \<in> set (routine_name r)"
proof -
  from collect_Inr[OF assms[unfolded MOZFUN_ROUTINES_def]]
  obtain root filename where "routine_of root filename = Inr r" by auto
  then show ?thesis by (rule routine_of_dot)
qed

text \<open>
  The first half of C6 holds: no registry that \<open>MOZFUN_ROUTINES\<close> can build, and no text,
  makes \<open>udf_usages_in_text\<close> report \<open>udf_js\<close>.
\<close>

lemma udf_usages_in_text_no_udf_js:
  assumes "MOZFUN_ROUTINES walk = Inr registry"
  shows "''udf_js'' \<notin> set (udf_usages_in_text sql_format registry text)"
proof
  assume "''udf_js'' \<in> set (udf_usages_in_text sql_format registry text)"
  then consider t where "''udf_js'' = dot_join t"
    | r where "r \<in> set registry" "routine_name r = ''udf_js''"
    by (auto simp: udf_usages_in_text_def Let_def)
  then show False
  proof cases
    case 1
    then have "CHR ''.'' \<in> set ''udf_js''" by (simp add: dot_join_def)
    then show False by simp
  next
    case 2
    with MOZFUN_ROUTINES_dot[OF assms] have "CHR ''.'' \<in> set ''udf_js''" by metis
    then show False by simp
  qed
qed

section \<open>The three passes of \<open>sub_local_routines\<close>, piece by piece\<close>















lemma sub_routine_apply:
  "sub_routine sql r = (if contains sql (routine_name r) then apply_routine sql r else sql)"
  unfolding sub_routine_def apply_routine_def routine_pat_def[abs_def] Let_def by (rule refl)

lemma foldl_sub_routine_regs:
  "\<exists>regs. set regs \<subseteq> set registry
     \<and> foldl sub_routine sql registry = foldl apply_routine sql regs"
proof (induction registry arbitrary: sql)
  case Nil
  have "set [] \<subseteq> set ([] :: routine list) \<and> foldl sub_routine sql [] = foldl apply_routine sql []"
    by simp
  then show ?case by blast
next
  case (Cons r rs)
  from Cons[of "sub_routine sql r"] obtain regs where
    regs: "set regs \<subseteq> set rs"
      "foldl sub_routine (sub_routine sql r) rs = foldl apply_routine (sub_routine sql r) regs"
    by blast
  show ?case
  proof (cases "contains sql (routine_name r)")
    case True
    then have "foldl sub_routine sql (r # rs) = foldl apply_routine sql (r # regs)"
      using regs(2) by (simp add: sub_routine_apply)
    moreover have "set (r # regs) \<subseteq> set (r # rs)" using regs(1) by auto
    ultimately show ?thesis by blast
  next
    case False
    then have "foldl sub_routine sql (r # rs) = foldl apply_routine sql regs"
      using regs(2) by (simp add: sub_routine_apply)
    moreover have "set regs \<subseteq> set (r # rs)" using regs(1) by auto
    ultimately show ?thesis by blast
  qed
qed







section \<open>The prefix pattern and the semicolon\<close>















section \<open>The output of \<open>sub_local_routines\<close>\<close>

















text \<open>
  Why the definitions have to end with their semicolon: the prefix pattern reaches over
  white space, the blank line included. After a definition that is cut off behind
  \<open>FUNCTION\<close>, the words \<open>IF NOT EXISTS\<close> that open the test are taken into the match and
  disappear from the output with the blank line.
\<close>

lemma sub_local_routines_unterminated_definition:
  "sub_local_routines recursion_limit plain_format [] ''IF NOT EXISTS (SELECT udf.a())''
     unterminated_catalog
   = Inr (''CREATE TEMP FUNCTION udf_b() AS (1);'' @ [newline, newline]
          @ ''CREATE TEMP FUNCTION udf_a() AS (udf_b());'' @ [newline, newline]
          @ ''CREATE TEMP FUNCTION (SELECT udf_a())'')"
  by code_simp

text \<open>
  Every test of a record is rewritten by \<open>sub_local_routines\<close>: the result of
  \<open>udf_tests_sql\<close> lists their outputs in order, and is an error when one of them is.
\<close>

lemma udf_tests_sql_outputs:
  "udf_tests_sql frames sql_format registry raw_udf raw_udfs = Inr outs
   \<Longrightarrow> map (\<lambda>test. sub_local_routines frames sql_format registry test raw_udfs) (tests raw_udf)
       = map Inr outs"
proof -
  have "collect xs = Inr outs \<Longrightarrow> xs = map Inr outs" for xs :: "(error + string) list"
  proof (induction xs arbitrary: outs)
    case Nil
    then show ?case by simp
  next
    case (Cons x xs)
    then show ?case by (auto split: sum.splits)
  qed
  then show "udf_tests_sql frames sql_format registry raw_udf raw_udfs = Inr outs
   \<Longrightarrow> map (\<lambda>test. sub_local_routines frames sql_format registry test raw_udfs) (tests raw_udf)
       = map Inr outs"
    unfolding udf_tests_sql_def by blast
qed

end
